theory Spec2Isabelle
  imports Main "HOL-Library.Word" "HOL-Library.Mapping" "HOL-Library.AList_Mapping"
begin

section \<open>Faults\<close>

text \<open>
  \<^verbatim>\<open>BOOST_THROW_EXCEPTION(LogicException(...))\<close> and a failed \<^verbatim>\<open>assert\<close> end the
  call; both are values of the model. A \<open>LogicException\<close> carries the fixed start of
  its message, which tells the throws apart. A function that can fault returns
  \<open>fault + 'a\<close>; on \<open>Inl\<close> the objects it was given by reference are as the
  caller had them, unless said otherwise.
\<close>

datatype fault = LogicException string | AssertionFailed

section \<open>Intervals, graph nodes and loci\<close>

text \<open>
  Modelled from the spec: \<^verbatim>\<open>known_pos_range2\<close> and \<^verbatim>\<open>GenomeInterval\<close> are declared
  outside the sources. The spec gives a GenomeInterval as a chromosome id with a
  half-open position range, with an intersection test and a range-merge (the union of
  the ranges).
\<close>

record known_pos_range2 =
  begin_pos :: int
  end_pos :: int

definition is_range_intersect :: "known_pos_range2 \<Rightarrow> known_pos_range2 \<Rightarrow> bool" where
  "is_range_intersect r kpr = (begin_pos r < end_pos kpr \<and> begin_pos kpr < end_pos r)"

definition merge_range :: "known_pos_range2 \<Rightarrow> known_pos_range2 \<Rightarrow> known_pos_range2" where
  "merge_range r kpr =
     \<lparr>begin_pos = min (begin_pos r) (begin_pos kpr), end_pos = max (end_pos r) (end_pos kpr)\<rparr>"

record GenomeInterval =
  tid :: int
  range_gi :: known_pos_range2

definition isIntersect_gi :: "GenomeInterval \<Rightarrow> GenomeInterval \<Rightarrow> bool" where
  "isIntersect_gi a b = (tid a = tid b \<and> is_range_intersect (range_gi a) (range_gi b))"

text \<open>
  Modelled from the spec: \<^verbatim>\<open>SVLocusNode\<close>, \<^verbatim>\<open>SVLocus\<close> and \<^verbatim>\<open>SVLocusSet\<close> are declared
  outside the sources. A node has a breakend interval, an evidence range, an out-count
  flag and an edge count to any other node; the fields carry the names of the accessors
  the sources call. A locus is the list of its nodes; \<open>getNode\<close> is read at the
  indices of its nodes only: for the locus of a read behind the check of its size, for
  the locus of the graph at the two node indices of an edge of that locus.
\<close>

record SVLocusNode =
  getInterval :: GenomeInterval
  getEvidenceRange :: known_pos_range2
  isOutCount :: bool
  getEdgeCount :: "nat \<Rightarrow> nat"

type_synonym SVLocus = "SVLocusNode list"

definition getNode :: "SVLocus \<Rightarrow> nat \<Rightarrow> SVLocusNode" where
  "getNode locus i = locus ! i"

record SVLocusSet =
  getLocus :: "nat \<Rightarrow> SVLocus"
  getMinMergeEdgeCount :: nat

record EdgeInfo =
  locusIndex :: nat
  nodeIndex1 :: nat
  nodeIndex2 :: nat

section \<open>Reads, read pairs and evidence groups\<close>

text \<open>
  Modelled from the spec: \<^verbatim>\<open>bam_record\<close>, \<^verbatim>\<open>bam_streamer\<close> and the classes of
  \<^verbatim>\<open>SVCandidateSetData\<close> are declared outside the sources. A read is known by its query
  name and its number in the pair. A read pair holds up to two reads and the list of
  its links to candidates. An evidence group is the ordered collection of the read
  pairs of one sample, with its incomplete and skipped flags. The evidence set holds
  one group per sample and the active search interval.
\<close>

record bam_record =
  qname :: string
  read_no :: nat

type_synonym index_t = nat

record SVPairAssociation =
  index :: nat
  evtype :: index_t

record SVCandidateSetReadPair =
  read1 :: "bam_record option"
  read2 :: "bam_record option"
  svLink :: "SVPairAssociation list"

definition isSet :: "bam_record option \<Rightarrow> bool" where
  "isSet r = (r \<noteq> None)"

record SVCandidateSetReadPairSampleGroup =
  pairs :: "SVCandidateSetReadPair list"
  isIncomplete :: bool
  isSkipped :: bool

definition size_group :: "SVCandidateSetReadPairSampleGroup \<Rightarrow> nat" where
  "size_group g = length (pairs g)"

definition setIncomplete ::
  "SVCandidateSetReadPairSampleGroup \<Rightarrow> SVCandidateSetReadPairSampleGroup" where
  "setIncomplete g = g\<lparr>isIncomplete := True\<rparr>"

definition emptyGroup :: SVCandidateSetReadPairSampleGroup where
  "emptyGroup = \<lparr>pairs = [], isIncomplete = False, isSkipped = False\<rparr>"

definition pairName :: "SVCandidateSetReadPair \<Rightarrow> string option" where
  "pairName p =
     (case read1 p of Some r \<Rightarrow> Some (qname r) | None \<Rightarrow> map_option qname (read2 p))"

definition setRead :: "bam_record \<Rightarrow> SVCandidateSetReadPair \<Rightarrow> SVCandidateSetReadPair" where
  "setRead bamRead p =
     (if read_no bamRead = 2 then p\<lparr>read2 := Some bamRead\<rparr> else p\<lparr>read1 := Some bamRead\<rparr>)"

definition targetRead :: "bam_record \<Rightarrow> SVCandidateSetReadPair \<Rightarrow> bam_record option" where
  "targetRead bamRead p = (if read_no bamRead = 2 then read2 p else read1 p)"

text \<open>
  Modelled from the spec: \<^verbatim>\<open>SVCandidateSetReadPairSampleGroup::add\<close> records the read
  into the group. The read joins the pair of its query name, a new pair at the end of
  the group when there is none. A side that is already taken is a query-name
  collision: tolerated (the read is not stored again) when a repeat is expected, a
  fault otherwise.
\<close>

fun addToPairs ::
  "bam_record \<Rightarrow> bool \<Rightarrow> SVCandidateSetReadPair list \<Rightarrow> fault + SVCandidateSetReadPair list" where
  "addToPairs bamRead isExpectRepeat [] =
     Inr [setRead bamRead \<lparr>read1 = None, read2 = None, svLink = []\<rparr>]"
| "addToPairs bamRead isExpectRepeat (p # ps) =
     (if pairName p = Some (qname bamRead) then
        (if isSet (targetRead bamRead p) then
           (if isExpectRepeat then Inr (p # ps)
            else Inl (LogicException ''Unexpected read name collision''))
         else Inr (setRead bamRead p # ps))
      else (case addToPairs bamRead isExpectRepeat ps of
              Inl e \<Rightarrow> Inl e
            | Inr ps' \<Rightarrow> Inr (p # ps')))"

definition add ::
  "bam_record \<Rightarrow> bool \<Rightarrow> SVCandidateSetReadPairSampleGroup
   \<Rightarrow> fault + SVCandidateSetReadPairSampleGroup" where
  "add bamRead isExpectRepeat g =
     (case addToPairs bamRead isExpectRepeat (pairs g) of
        Inl e \<Rightarrow> Inl e
      | Inr ps \<Rightarrow> Inr (g\<lparr>pairs := ps\<rparr>))"

record SVCandidateSetData =
  getDataGroup :: "nat \<Rightarrow> SVCandidateSetReadPairSampleGroup"
  searchInterval :: "GenomeInterval option"

definition clear :: "SVCandidateSetData \<Rightarrow> SVCandidateSetData" where
  "clear svData = \<lparr>getDataGroup = (\<lambda>bamIndex. emptyGroup), searchInterval = None\<rparr>"

definition setSkipped :: "SVCandidateSetData \<Rightarrow> SVCandidateSetData" where
  "setSkipped svData =
     svData\<lparr>getDataGroup := (\<lambda>bamIndex. (getDataGroup svData bamIndex)\<lparr>isSkipped := True\<rparr>)\<rparr>"

definition setDataGroup ::
  "nat \<Rightarrow> SVCandidateSetReadPairSampleGroup \<Rightarrow> SVCandidateSetData \<Rightarrow> SVCandidateSetData" where
  "setDataGroup bamIndex g svData = svData\<lparr>getDataGroup := (getDataGroup svData)(bamIndex := g)\<rparr>"

text \<open>
  Modelled from the spec: \<^verbatim>\<open>setNewSearchInterval\<close> makes the interval the active one and
  answers whether this exact interval was the active one already.
\<close>

definition setNewSearchInterval ::
  "GenomeInterval \<Rightarrow> SVCandidateSetData \<Rightarrow> bool \<times> SVCandidateSetData" where
  "setNewSearchInterval newSearch svData =
     (searchInterval svData = Some newSearch, svData\<lparr>searchInterval := Some newSearch\<rparr>)"

text \<open>
  A stream gives the records of a region in file order (\<open>fetch\<close>, its file) and
  remembers the region it was set to last.
\<close>

record bam_streamer =
  fetch :: "int \<Rightarrow> int \<Rightarrow> int \<Rightarrow> bam_record list"
  region :: "(int \<times> int \<times> int) option"

definition set_new_region :: "int \<Rightarrow> int \<Rightarrow> int \<Rightarrow> bam_streamer \<Rightarrow> bam_streamer" where
  "set_new_region t b e s = s\<lparr>region := Some (t, b, e)\<rparr>"

section \<open>Candidates and observations\<close>

text \<open>
  Modelled from the spec: \<^verbatim>\<open>SVBreakend\<close>, \<^verbatim>\<open>SVCandidate\<close> and \<^verbatim>\<open>SVObservation\<close> are
  declared outside the sources. A breakend has a running interval and evidence counts,
  of which the validator reads the pair count and the local pair count. A candidate
  has two breakends and its index; an observation is a candidate with an evidence type.
\<close>

record SVBreakend =
  interval :: GenomeInterval
  getLocalPairCount :: "32 word"
  getPairCount :: "32 word"

record SVCandidate =
  bp1 :: SVBreakend
  bp2 :: SVBreakend
  candidateIndex :: nat

record SVObservation = SVCandidate +
  obs_evtype :: index_t

text \<open>
  \<^verbatim>\<open>svs.push_back(readCand)\<close> stores the candidate part of an observation.
\<close>

definition asCandidate :: "SVObservation \<Rightarrow> SVCandidate" where
  "asCandidate readCand = SVCandidate.truncate readCand"

text \<open>
  The functions on candidates and evidence types that the sources call and do not
  define (\<^verbatim>\<open>SVCandidate::isIntersect\<close>, \<^verbatim>\<open>SVCandidate::merge\<close>, \<^verbatim>\<open>isSpanningSV\<close>,
  \<^verbatim>\<open>SVEvidenceType::isPairType\<close>) are parameters of the model. \<open>merge ops sv rhs\<close> is
  \<open>sv\<close> after \<^verbatim>\<open>sv.merge(rhs)\<close>.
\<close>

record SVCandidateOps =
  isIntersect :: "SVCandidate \<Rightarrow> SVCandidate \<Rightarrow> bool"
  merge :: "SVCandidate \<Rightarrow> SVCandidate \<Rightarrow> SVCandidate"
  isSpanningSV :: "SVCandidate \<Rightarrow> bool"
  isPairType :: "index_t \<Rightarrow> bool"

text \<open>
  The read scanner (\<^verbatim>\<open>SVLocusScanner\<close>) is a parameter too: its predicates on reads,
  the loci it derives from a read and the observations it derives from a read pair
  (\<^verbatim>\<open>getSVLoci\<close> and \<^verbatim>\<open>getBreakendPair\<close> fill a list they are given; the model takes the
  list they leave).
\<close>

type_synonym chromToIndex_t = "string \<Rightarrow> int option"

record SVLocusScanner =
  isReadFiltered :: "bam_record \<Rightarrow> bool"
  isProperPair :: "bam_record \<Rightarrow> nat \<Rightarrow> bool"
  isLargeFragment :: "bam_record \<Rightarrow> nat \<Rightarrow> bool"
  isLocalAssemblyEvidence :: "bam_record \<Rightarrow> bool"
  getSVLoci :: "bam_record \<Rightarrow> nat \<Rightarrow> chromToIndex_t \<Rightarrow> SVLocus list"
  getBreakendPair ::
    "bam_record \<Rightarrow> bam_record option \<Rightarrow> nat \<Rightarrow> chromToIndex_t \<Rightarrow> SVObservation list"

definition isExcludeUnpaired :: bool where
  "isExcludeUnpaired = True"

section \<open>The evidence collector\<close>

definition maxDataSize :: nat where
  "maxDataSize = 4000"

text \<open>
  The loop of \<^verbatim>\<open>addSVNodeRead\<close> over the loci of one read: \<^verbatim>\<open>continue\<close> is the
  recursive call, \<^verbatim>\<open>break\<close> and the throw end the loop.
\<close>

fun scanLoci ::
  "SVLocusNode \<Rightarrow> SVLocusNode \<Rightarrow> bam_record \<Rightarrow> bool \<Rightarrow> SVLocus list
   \<Rightarrow> SVCandidateSetReadPairSampleGroup \<Rightarrow> fault + SVCandidateSetReadPairSampleGroup" where
  "scanLoci localNode remoteNode bamRead isExpectRepeat [] svDataGroup = Inr svDataGroup"
| "scanLoci localNode remoteNode bamRead isExpectRepeat (locus # loci) svDataGroup =
     (let locusSize = length locus in
      if \<not> (locusSize \<ge> 1 \<and> locusSize \<le> 2) then Inl AssertionFailed
      else if locusSize = 2 then
        (let swapped = \<not> isOutCount (getNode locus 0);
             readLocalIndex = (if swapped then 1 else 0);
             readRemoteIndex = (if swapped then 0 else 1)
         in if \<not> isOutCount (getNode locus readLocalIndex)
              then Inl (LogicException ''Unexpected svlocus counts from bam record'')
            else if \<not> isIntersect_gi (getInterval (getNode locus readRemoteIndex))
                                         (getInterval remoteNode)
              then scanLoci localNode remoteNode bamRead isExpectRepeat loci svDataGroup
            else if \<not> isIntersect_gi (getInterval (getNode locus readLocalIndex))
                                         (getInterval localNode)
              then scanLoci localNode remoteNode bamRead isExpectRepeat loci svDataGroup
            else add bamRead isExpectRepeat svDataGroup)
      else if \<not> isIntersect_gi (getInterval (getNode locus 0)) (getInterval localNode)
        then scanLoci localNode remoteNode bamRead isExpectRepeat loci svDataGroup
      else add bamRead isExpectRepeat svDataGroup)"

definition addSVNodeRead ::
  "chromToIndex_t \<Rightarrow> SVLocusScanner \<Rightarrow> SVLocusNode \<Rightarrow> SVLocusNode \<Rightarrow> bam_record \<Rightarrow> nat \<Rightarrow> bool
   \<Rightarrow> SVCandidateSetReadPairSampleGroup \<Rightarrow> fault + SVCandidateSetReadPairSampleGroup" where
  "addSVNodeRead chromToIndex scanner localNode remoteNode bamRead bamIndex isExpectRepeat
     svDataGroup =
     (if isReadFiltered scanner bamRead then Inr svDataGroup
      else
        (let isAnomalous = \<not> isProperPair scanner bamRead bamIndex;
             isLargeFragment' = isLargeFragment scanner bamRead bamIndex;
             isLargeAnomalous = (isAnomalous \<and> isLargeFragment');
             isLocalAssemblyEvidence' =
               (if \<not> isLargeAnomalous then isLocalAssemblyEvidence scanner bamRead else False)
         in if \<not> (isLargeAnomalous \<or> isLocalAssemblyEvidence') then Inr svDataGroup
            else if size_group svDataGroup \<ge> maxDataSize then Inr (setIncomplete svDataGroup)
            else scanLoci localNode remoteNode bamRead isExpectRepeat
                   (getSVLoci scanner bamRead bamIndex chromToIndex) svDataGroup))"

text \<open>The \<^verbatim>\<open>while (read_stream.next())\<close> loop of \<^verbatim>\<open>addSVNodeData\<close> over one stream.\<close>

fun addSVNodeReads ::
  "chromToIndex_t \<Rightarrow> SVLocusScanner \<Rightarrow> SVLocusNode \<Rightarrow> SVLocusNode \<Rightarrow> nat \<Rightarrow> bool
   \<Rightarrow> bam_record list \<Rightarrow> SVCandidateSetReadPairSampleGroup
   \<Rightarrow> fault + SVCandidateSetReadPairSampleGroup" where
  "addSVNodeReads chromToIndex scanner localNode remoteNode bamIndex isExpectRepeat []
     svDataGroup = Inr svDataGroup"
| "addSVNodeReads chromToIndex scanner localNode remoteNode bamIndex isExpectRepeat
     (bamRead # rest) svDataGroup =
     (case addSVNodeRead chromToIndex scanner localNode remoteNode bamRead bamIndex
             isExpectRepeat svDataGroup of
        Inl e \<Rightarrow> Inl e
      | Inr g \<Rightarrow> addSVNodeReads chromToIndex scanner localNode remoteNode bamIndex
                  isExpectRepeat rest g)"

text \<open>
  The loop of \<^verbatim>\<open>addSVNodeData\<close> over the streams, \<open>bamIndex\<close> counting them; the
  streams already passed are returned in front of the ones still to come.
\<close>

fun addSVNodeStreams ::
  "chromToIndex_t \<Rightarrow> SVLocusScanner \<Rightarrow> SVLocusNode \<Rightarrow> SVLocusNode \<Rightarrow> GenomeInterval \<Rightarrow> bool
   \<Rightarrow> nat \<Rightarrow> bam_streamer list \<Rightarrow> SVCandidateSetData
   \<Rightarrow> fault + (bam_streamer list \<times> SVCandidateSetData)" where
  "addSVNodeStreams chromToIndex scanner localNode remoteNode searchInterval' isExpectRepeat
     bamIndex [] svData = Inr ([], svData)"
| "addSVNodeStreams chromToIndex scanner localNode remoteNode searchInterval' isExpectRepeat
     bamIndex (read_stream # rest) svData =
     (let read_stream' =
            set_new_region (tid searchInterval') (begin_pos (range_gi searchInterval'))
              (end_pos (range_gi searchInterval')) read_stream
      in case addSVNodeReads chromToIndex scanner localNode remoteNode bamIndex isExpectRepeat
                (fetch read_stream (tid searchInterval') (begin_pos (range_gi searchInterval'))
                   (end_pos (range_gi searchInterval')))
                (getDataGroup svData bamIndex) of
           Inl e \<Rightarrow> Inl e
         | Inr g \<Rightarrow>
             (case addSVNodeStreams chromToIndex scanner localNode remoteNode searchInterval'
                     isExpectRepeat (bamIndex + 1) rest (setDataGroup bamIndex g svData) of
                Inl e \<Rightarrow> Inl e
              | Inr (rest', svData') \<Rightarrow> Inr (read_stream' # rest', svData')))"

definition addSVNodeData ::
  "SVLocusScanner \<Rightarrow> bam_streamer list \<Rightarrow> chromToIndex_t \<Rightarrow> SVLocus \<Rightarrow> nat \<Rightarrow> nat
   \<Rightarrow> SVCandidateSetData \<Rightarrow> fault + (bam_streamer list \<times> SVCandidateSetData)" where
  "addSVNodeData scanner bamStreams chromToIndex locus localNodeIndex remoteNodeIndex svData =
     (let localNode = getNode locus localNodeIndex;
          remoteNode = getNode locus remoteNodeIndex;
          searchInterval' =
            (getInterval localNode)\<lparr>range_gi :=
               merge_range (range_gi (getInterval localNode)) (getEvidenceRange localNode)\<rparr>;
          (isExpectRepeat0, svData') = setNewSearchInterval searchInterval' svData;
          isExpectRepeat =
            (if \<not> isExpectRepeat0
             then tid (getInterval localNode) = tid (getInterval remoteNode)
             else isExpectRepeat0)
      in addSVNodeStreams chromToIndex scanner localNode remoteNode searchInterval'
           isExpectRepeat 0 bamStreams svData')"

section \<open>The result validator\<close>

text \<open>
  The tallies \<^verbatim>\<open>readCounts\<close> and \<^verbatim>\<open>pairCounts\<close> are maps from \<^verbatim>\<open>unsigned\<close> to
  \<^verbatim>\<open>unsigned\<close> read with \<^verbatim>\<open>operator[]\<close>: functions into 32-bit words, zero where
  nothing was counted.
\<close>

record tallies =
  readCounts :: "nat \<Rightarrow> 32 word"
  pairCounts :: "nat \<Rightarrow> 32 word"

fun tallyLinks ::
  "SVCandidateOps \<Rightarrow> nat \<Rightarrow> SVCandidateSetReadPair \<Rightarrow> SVPairAssociation list \<Rightarrow> tallies
   \<Rightarrow> fault + tallies" where
  "tallyLinks ops svCount pair [] t = Inr t"
| "tallyLinks ops svCount pair (sva # rest) t =
     (if index sva \<ge> svCount then Inl (LogicException ''Searching for SVIndex'')
      else if isPairType ops (evtype sva) then
        (let t1 = (if isSet (read1 pair)
                   then t\<lparr>readCounts := (readCounts t)(index sva := readCounts t (index sva) + 1)\<rparr>
                   else t);
             t2 = (if isSet (read2 pair)
                   then t1\<lparr>readCounts := (readCounts t1)(index sva := readCounts t1 (index sva) + 1)\<rparr>
                   else t1);
             t3 = (if isSet (read1 pair) \<and> isSet (read2 pair)
                   then t2\<lparr>pairCounts := (pairCounts t2)(index sva := pairCounts t2 (index sva) + 2)\<rparr>
                   else t2)
         in tallyLinks ops svCount pair rest t3)
      else tallyLinks ops svCount pair rest t)"

fun tallyPairs ::
  "SVCandidateOps \<Rightarrow> nat \<Rightarrow> SVCandidateSetReadPair list \<Rightarrow> tallies \<Rightarrow> fault + tallies" where
  "tallyPairs ops svCount [] t = Inr t"
| "tallyPairs ops svCount (pair # rest) t =
     (case tallyLinks ops svCount pair (svLink pair) t of
        Inl e \<Rightarrow> Inl e
      | Inr t' \<Rightarrow> tallyPairs ops svCount rest t')"

fun tallyGroups ::
  "SVCandidateOps \<Rightarrow> nat \<Rightarrow> SVCandidateSetData \<Rightarrow> nat list \<Rightarrow> tallies \<Rightarrow> fault + tallies" where
  "tallyGroups ops svCount svData [] t = Inr t"
| "tallyGroups ops svCount svData (bamIndex # rest) t =
     (case tallyPairs ops svCount (pairs (getDataGroup svData bamIndex)) t of
        Inl e \<Rightarrow> Inl e
      | Inr t' \<Rightarrow> tallyGroups ops svCount svData rest t')"

fun checkCounts :: "SVCandidate list \<Rightarrow> tallies \<Rightarrow> nat list \<Rightarrow> fault + unit" where
  "checkCounts svs t [] = Inr ()"
| "checkCounts svs t (svIndex # rest) =
     (let svObsReadCount =
            getLocalPairCount (bp1 (svs ! svIndex)) + getLocalPairCount (bp2 (svs ! svIndex));
          svObsPairCount = getPairCount (bp1 (svs ! svIndex)) + getPairCount (bp2 (svs ! svIndex))
      in if getPairCount (bp1 (svs ! svIndex)) \<noteq> getPairCount (bp2 (svs ! svIndex))
         then Inl AssertionFailed
         else
           (let dataObsReadCount = readCounts t svIndex;
                dataObsPairCount = pairCounts t svIndex;
                isCountException =
                  ((if isExcludeUnpaired then svObsReadCount > dataObsReadCount
                    else svObsReadCount \<noteq> dataObsReadCount)
                   \<or> svObsPairCount \<noteq> dataObsPairCount)
            in if isCountException
               then Inl (LogicException ''Unexpected difference in sv and data read counts'')
               else checkCounts svs t rest))"

definition checkResult ::
  "SVCandidateOps \<Rightarrow> nat \<Rightarrow> SVCandidateSetData \<Rightarrow> SVCandidate list \<Rightarrow> fault + unit" where
  "checkResult ops bamCount svData svs =
     (let svCount = length svs in
      if 0 = svCount then Inr ()
      else
        (case tallyGroups ops svCount svData [0..<bamCount]
                \<lparr>readCounts = (\<lambda>i. 0), pairCounts = (\<lambda>i. 0)\<rparr> of
           Inl e \<Rightarrow> Inl e
         | Inr t \<Rightarrow> checkCounts svs t [0..<svCount]))"

section \<open>The overlap consolidator\<close>

text \<open>
  The locals of \<^verbatim>\<open>consolidateOverlap\<close> during its scan, with the candidate list it
  changes in place. \<^verbatim>\<open>movemap_t\<close> is a \<^verbatim>\<open>std::map\<close>, \<^verbatim>\<open>deletedSVIndex\<close> a \<^verbatim>\<open>std::set\<close>.
\<close>

type_synonym movemap_t = "(nat, nat) mapping"

record scanState =
  moveSVIndex :: movemap_t
  deletedSVIndex :: "nat set"
  innerIndexShift :: "nat list"
  svs_of :: "SVCandidate list"

fun innerLoop :: "SVCandidateOps \<Rightarrow> nat \<Rightarrow> nat list \<Rightarrow> scanState \<Rightarrow> fault + scanState" where
  "innerLoop ops outerIndex [] st = Inr st"
| "innerLoop ops outerIndex (innerIndex # rest) st =
     (if innerIndex \<in> deletedSVIndex st then innerLoop ops outerIndex rest st
      else if isIntersect ops (svs_of st ! innerIndex) (svs_of st ! outerIndex) then
        (let svs1 = (svs_of st)[innerIndex :=
                       merge ops (svs_of st ! innerIndex) (svs_of st ! outerIndex)]
         in if \<not> (length (innerIndexShift st) > innerIndex) then Inl AssertionFailed
            else if \<not> (innerIndexShift st ! innerIndex \<le> innerIndex) then Inl AssertionFailed
            else Inr (st\<lparr>svs_of := svs1,
                         moveSVIndex := Mapping.update outerIndex
                            (innerIndex - innerIndexShift st ! innerIndex) (moveSVIndex st),
                         deletedSVIndex := insert outerIndex (deletedSVIndex st)\<rparr>))
      else innerLoop ops outerIndex rest st)"

fun outerLoop :: "SVCandidateOps \<Rightarrow> nat list \<Rightarrow> scanState \<Rightarrow> fault + scanState" where
  "outerLoop ops [] st = Inr st"
| "outerLoop ops (outerIndex # rest) st =
     (let prevInnerIndexShift =
            (if outerIndex \<le> 1 then 0 else innerIndexShift st ! (outerIndex - 2));
          st1 = st\<lparr>innerIndexShift := innerIndexShift st @
                  [prevInnerIndexShift + (if outerIndex - 1 \<in> deletedSVIndex st then 1 else 0)]\<rparr>
      in case innerLoop ops outerIndex [0..<outerIndex] st1 of
           Inl e \<Rightarrow> Inl e
         | Inr st2 \<Rightarrow> outerLoop ops rest st2)"

text \<open>The local struct \<^verbatim>\<open>svCandDeleter\<close>, with the list and the map it refers to.\<close>

record svCandDeleter =
  shift :: nat
  isLastIndex :: bool
  lastIndex :: nat
  svs_d :: "SVCandidate list"
  moveSVIndex_d :: movemap_t

fun moveLoop :: "nat list \<Rightarrow> svCandDeleter \<Rightarrow> fault + svCandDeleter" where
  "moveLoop [] d = Inr d"
| "moveLoop (i # rest) d =
     (if \<not> (shift d > 0) then Inl AssertionFailed
      else if \<not> (i \<ge> shift d) then Inl AssertionFailed
      else moveLoop rest
             (d\<lparr>svs_d := (svs_d d)[i - shift d := svs_d d ! i],
                moveSVIndex_d := Mapping.update i (i - shift d) (moveSVIndex_d d)\<rparr>))"

definition deleteIndex :: "nat \<Rightarrow> svCandDeleter \<Rightarrow> fault + svCandDeleter" where
  "deleteIndex index' d =
     (if \<not> (index' \<le> length (svs_d d)) then Inl AssertionFailed
      else
        (case (if isLastIndex d then moveLoop [lastIndex d + 1..<index'] d else Inr d) of
           Inl e \<Rightarrow> Inl e
         | Inr d' \<Rightarrow> Inr (d'\<lparr>lastIndex := index', isLastIndex := True, shift := shift d' + 1\<rparr>)))"

fun deleteIndices :: "nat list \<Rightarrow> svCandDeleter \<Rightarrow> fault + svCandDeleter" where
  "deleteIndices [] d = Inr d"
| "deleteIndices (index' # rest) d =
     (case deleteIndex index' d of
        Inl e \<Rightarrow> Inl e
      | Inr d' \<Rightarrow> deleteIndices rest d')"

text \<open>The loop that stores each position as the candidate's index.\<close>

fun fixIndices :: "nat \<Rightarrow> SVCandidate list \<Rightarrow> SVCandidate list" where
  "fixIndices i [] = []"
| "fixIndices i (sv # rest) = sv\<lparr>candidateIndex := i\<rparr> # fixIndices (i + 1) rest"

text \<open>
  Lines 355 to 410 of \<^verbatim>\<open>consolidateOverlap\<close>: the scan, then the deletion of the merged
  candidates. The result is the move map and the candidate list.
\<close>

definition consolidateCandidates ::
  "SVCandidateOps \<Rightarrow> SVCandidate list \<Rightarrow> fault + (movemap_t \<times> SVCandidate list)" where
  "consolidateCandidates ops svs =
     (let svCount = length svs in
      case outerLoop ops [1..<svCount]
             \<lparr>moveSVIndex = Mapping.empty, deletedSVIndex = {}, innerIndexShift = [],
              svs_of = svs\<rparr> of
        Inl e \<Rightarrow> Inl e
      | Inr st \<Rightarrow>
          (if deletedSVIndex st \<noteq> {} then
             (case deleteIndices (sorted_list_of_set (deletedSVIndex st) @ [svCount])
                     \<lparr>shift = 0, isLastIndex = False, lastIndex = 0, svs_d = svs_of st,
                      moveSVIndex_d = moveSVIndex st\<rparr> of
                Inl e \<Rightarrow> Inl e
              | Inr d \<Rightarrow>
                  Inr (moveSVIndex_d d,
                       fixIndices 0
                         (take (length (svs_d d) - card (deletedSVIndex st)) (svs_d d))))
           else Inr (moveSVIndex st, svs_of st)))"

text \<open>Lines 412 to 435: the links of every read pair of every group follow the move map.\<close>

definition moveLink :: "movemap_t \<Rightarrow> SVPairAssociation \<Rightarrow> SVPairAssociation" where
  "moveLink moveSVIndex' sva =
     (case Mapping.lookup moveSVIndex' (index sva) of
        Some j \<Rightarrow> sva\<lparr>index := j\<rparr>
      | None \<Rightarrow> sva)"

definition movePair :: "movemap_t \<Rightarrow> SVCandidateSetReadPair \<Rightarrow> SVCandidateSetReadPair" where
  "movePair moveSVIndex' pair = pair\<lparr>svLink := map (moveLink moveSVIndex') (svLink pair)\<rparr>"

fun moveGroups :: "movemap_t \<Rightarrow> nat list \<Rightarrow> SVCandidateSetData \<Rightarrow> SVCandidateSetData" where
  "moveGroups moveSVIndex' [] svData = svData"
| "moveGroups moveSVIndex' (bamIndex # rest) svData =
     moveGroups moveSVIndex' rest
       (setDataGroup bamIndex
          ((getDataGroup svData bamIndex)\<lparr>pairs :=
             map (movePair moveSVIndex') (pairs (getDataGroup svData bamIndex))\<rparr>) svData)"

definition consolidateOverlap ::
  "SVCandidateOps \<Rightarrow> nat \<Rightarrow> SVCandidateSetData \<Rightarrow> SVCandidate list
   \<Rightarrow> fault + (SVCandidateSetData \<times> SVCandidate list)" where
  "consolidateOverlap ops bamCount svData svs =
     (case consolidateCandidates ops svs of
        Inl e \<Rightarrow> Inl e
      | Inr (moveSVIndex', svs') \<Rightarrow>
          (if \<not> Mapping.is_empty moveSVIndex'
           then Inr (moveGroups moveSVIndex' [0..<bamCount] svData, svs')
           else Inr (svData, svs')))"

section \<open>The observation assigner\<close>

text \<open>
  The loop of \<^verbatim>\<open>assignPairObservationsToSVCandidates\<close> over the candidates, \<open>svIndex\<close>
  counting them: \<open>Some\<close> of the index matched and the list after the merge, \<open>None\<close>
  when the loop ends with \<^verbatim>\<open>isMatched\<close> false.
\<close>

fun matchCandidate ::
  "SVCandidateOps \<Rightarrow> SVObservation \<Rightarrow> nat \<Rightarrow> SVCandidate list \<Rightarrow> (nat \<times> SVCandidate list) option"
  where
  "matchCandidate ops readCand svIndex [] = None"
| "matchCandidate ops readCand svIndex (sv # rest) =
     (if isIntersect ops sv (asCandidate readCand)
      then Some (svIndex, merge ops sv (asCandidate readCand) # rest)
      else (case matchCandidate ops readCand (svIndex + 1) rest of
              None \<Rightarrow> None
            | Some (i, rest') \<Rightarrow> Some (i, sv # rest')))"

definition pushLink ::
  "bool \<Rightarrow> nat \<Rightarrow> SVObservation \<Rightarrow> SVCandidateSetReadPair \<Rightarrow> SVCandidateSetReadPair" where
  "pushLink isSpanning svIndex readCand pair =
     (if isSpanning
      then pair\<lparr>svLink := svLink pair @ [\<lparr>index = svIndex, evtype = obs_evtype readCand\<rparr>]\<rparr>
      else pair)"

text \<open>One pass of the loop over the observations of a read pair.\<close>

definition assignObservation ::
  "SVCandidateOps \<Rightarrow> bool \<Rightarrow> SVObservation \<Rightarrow> SVCandidateSetReadPair \<Rightarrow> SVCandidate list
   \<Rightarrow> SVCandidateSetReadPair \<times> SVCandidate list" where
  "assignObservation ops isExcludePairType readCand pair svs =
     (if isExcludePairType \<and> isPairType ops (obs_evtype readCand) then (pair, svs)
      else
        (let isSpanning = isSpanningSV ops (asCandidate readCand) in
         case matchCandidate ops readCand 0 svs of
           Some (svIndex, svs') \<Rightarrow> (pushLink isSpanning svIndex readCand pair, svs')
         | None \<Rightarrow>
             (let newSVIndex = length svs
              in (pushLink isSpanning newSVIndex readCand pair,
                  svs @ [(asCandidate readCand)\<lparr>candidateIndex := newSVIndex\<rparr>]))))"

fun assignPairObservationsToSVCandidates ::
  "SVCandidateOps \<Rightarrow> bool \<Rightarrow> SVObservation list \<Rightarrow> SVCandidateSetReadPair \<Rightarrow> SVCandidate list
   \<Rightarrow> SVCandidateSetReadPair \<times> SVCandidate list" where
  "assignPairObservationsToSVCandidates ops isExcludePairType [] pair svs = (pair, svs)"
| "assignPairObservationsToSVCandidates ops isExcludePairType (readCand # rest) pair svs =
     (case assignObservation ops isExcludePairType readCand pair svs of
        (pair', svs') \<Rightarrow> assignPairObservationsToSVCandidates ops isExcludePairType rest pair' svs')"

text \<open>
  The body of the loop of \<^verbatim>\<open>getCandidatesFromData\<close> over the read pairs of a group:
  the links of the pair are cleared, the local read is the one that is set, the
  observations are derived and assigned.
\<close>

definition assignPair ::
  "SVCandidateOps \<Rightarrow> SVLocusScanner \<Rightarrow> chromToIndex_t \<Rightarrow> nat \<Rightarrow> SVCandidateSetReadPair
   \<Rightarrow> SVCandidate list \<Rightarrow> fault + (SVCandidateSetReadPair \<times> SVCandidate list)" where
  "assignPair ops scanner chromToIndex bamIndex pair svs =
     (let pair0 = pair\<lparr>svLink := []\<rparr>;
          swapped = \<not> isSet (read1 pair0);
          localRead = (if swapped then read2 pair0 else read1 pair0);
          remoteRead = (if swapped then read1 pair0 else read2 pair0)
      in case localRead of
           None \<Rightarrow> Inl AssertionFailed
         | Some localBamRec \<Rightarrow>
             (let readCandidates =
                    getBreakendPair scanner localBamRec remoteRead bamIndex chromToIndex;
                  isExcludePairType = (if isExcludeUnpaired then \<not> isSet remoteRead else False)
              in Inr (assignPairObservationsToSVCandidates ops isExcludePairType readCandidates
                        pair0 svs)))"

fun assignPairs ::
  "SVCandidateOps \<Rightarrow> SVLocusScanner \<Rightarrow> chromToIndex_t \<Rightarrow> nat \<Rightarrow> SVCandidateSetReadPair list
   \<Rightarrow> SVCandidate list \<Rightarrow> fault + (SVCandidateSetReadPair list \<times> SVCandidate list)" where
  "assignPairs ops scanner chromToIndex bamIndex [] svs = Inr ([], svs)"
| "assignPairs ops scanner chromToIndex bamIndex (pair # rest) svs =
     (case assignPair ops scanner chromToIndex bamIndex pair svs of
        Inl e \<Rightarrow> Inl e
      | Inr (pair', svs') \<Rightarrow>
          (case assignPairs ops scanner chromToIndex bamIndex rest svs' of
             Inl e \<Rightarrow> Inl e
           | Inr (rest', svs'') \<Rightarrow> Inr (pair' # rest', svs'')))"

fun assignGroups ::
  "SVCandidateOps \<Rightarrow> SVLocusScanner \<Rightarrow> chromToIndex_t \<Rightarrow> nat list \<Rightarrow> SVCandidateSetData
   \<Rightarrow> SVCandidate list \<Rightarrow> fault + (SVCandidateSetData \<times> SVCandidate list)" where
  "assignGroups ops scanner chromToIndex [] svData svs = Inr (svData, svs)"
| "assignGroups ops scanner chromToIndex (bamIndex # rest) svData svs =
     (case assignPairs ops scanner chromToIndex bamIndex (pairs (getDataGroup svData bamIndex))
             svs of
        Inl e \<Rightarrow> Inl e
      | Inr (pairs', svs') \<Rightarrow>
          assignGroups ops scanner chromToIndex rest
            (setDataGroup bamIndex ((getDataGroup svData bamIndex)\<lparr>pairs := pairs'\<rparr>) svData)
            svs')"

definition getCandidatesFromData ::
  "SVCandidateOps \<Rightarrow> SVLocusScanner \<Rightarrow> nat \<Rightarrow> chromToIndex_t \<Rightarrow> SVCandidateSetData
   \<Rightarrow> SVCandidate list \<Rightarrow> fault + (SVCandidateSetData \<times> SVCandidate list)" where
  "getCandidatesFromData ops scanner bamCount chromToIndex svData svs =
     (case assignGroups ops scanner chromToIndex [0..<bamCount] svData svs of
        Inl e \<Rightarrow> Inl e
      | Inr (svData', svs') \<Rightarrow> consolidateOverlap ops bamCount svData' svs')"

section \<open>The edge orchestrator\<close>

text \<open>
  The members of \<^verbatim>\<open>SVFinder\<close> that \<^verbatim>\<open>findCandidateSV\<close> reads: the read scanner, the
  locus set and the streams, one per sample.
\<close>

record SVFinder =
  readScanner :: SVLocusScanner
  getSet :: SVLocusSet
  bamStreams :: "bam_streamer list"

definition findCandidateSV ::
  "SVCandidateOps \<Rightarrow> SVFinder \<Rightarrow> chromToIndex_t \<Rightarrow> EdgeInfo \<Rightarrow> SVCandidateSetData
   \<Rightarrow> SVCandidate list \<Rightarrow> fault + (SVFinder \<times> SVCandidateSetData \<times> SVCandidate list)" where
  "findCandidateSV ops finder chromToIndex edge svData svs =
     (let svData0 = clear svData;
          svs0 = [];
          minEdgeCount = getMinMergeEdgeCount (getSet finder);
          locus = getLocus (getSet finder) (locusIndex edge)
      in if getEdgeCount (getNode locus (nodeIndex1 edge)) (nodeIndex2 edge) < minEdgeCount
            \<or> getEdgeCount (getNode locus (nodeIndex2 edge)) (nodeIndex1 edge) < minEdgeCount
         then Inr (finder, svData0, svs0)
         else
           (case addSVNodeData (readScanner finder) (bamStreams finder) chromToIndex locus
                   (nodeIndex1 edge) (nodeIndex2 edge) svData0 of
              Inl e \<Rightarrow> Inl e
            | Inr (streams1, svData1) \<Rightarrow>
                (case (if nodeIndex1 edge \<noteq> nodeIndex2 edge
                       then addSVNodeData (readScanner finder) streams1 chromToIndex locus
                              (nodeIndex2 edge) (nodeIndex1 edge) svData1
                       else Inr (streams1, setSkipped svData1)) of
                   Inl e \<Rightarrow> Inl e
                 | Inr (streams2, svData2) \<Rightarrow>
                     (case getCandidatesFromData ops (readScanner finder)
                             (length (bamStreams finder)) chromToIndex svData2 svs0 of
                        Inl e \<Rightarrow> Inl e
                      | Inr (svData3, svs3) \<Rightarrow>
                          Inr (finder\<lparr>bamStreams := streams2\<rparr>, svData3, svs3)))))"

section \<open>Notions used to state the properties\<close>

text \<open>
  The gate of \<^verbatim>\<open>findCandidateSV\<close>: one of the two directed counts of the edge is below
  the minimum of the locus set.
\<close>

definition edgeBelowMin :: "SVFinder \<Rightarrow> EdgeInfo \<Rightarrow> bool" where
  "edgeBelowMin finder edge =
     (let locus = getLocus (getSet finder) (locusIndex edge);
          minEdgeCount = getMinMergeEdgeCount (getSet finder)
      in getEdgeCount (getNode locus (nodeIndex1 edge)) (nodeIndex2 edge) < minEdgeCount
         \<or> getEdgeCount (getNode locus (nodeIndex2 edge)) (nodeIndex1 edge) < minEdgeCount)"

text \<open>
  The ways one locus of a read can go in the loop of \<^verbatim>\<open>addSVNodeRead\<close>. A faulty locus
  has two sides, neither flagged out-count. An accepted locus meets the overlap
  criteria: its local side (the out-count side of a two-sided locus) intersects the
  local node and, when it has two sides, its remote side intersects the remote node. A
  locus is passed over when it has one or two sides, is not faulty and is not accepted:
  the loop goes on to the next locus.
\<close>

definition faultyLocus :: "SVLocus \<Rightarrow> bool" where
  "faultyLocus locus =
     (length locus = 2 \<and> \<not> isOutCount (getNode locus 0) \<and> \<not> isOutCount (getNode locus 1))"

definition acceptedLocus :: "SVLocusNode \<Rightarrow> SVLocusNode \<Rightarrow> SVLocus \<Rightarrow> bool" where
  "acceptedLocus localNode remoteNode locus =
     (if length locus = 2 then
        (if isOutCount (getNode locus 0)
         then isIntersect_gi (getInterval (getNode locus 1)) (getInterval remoteNode)
              \<and> isIntersect_gi (getInterval (getNode locus 0)) (getInterval localNode)
         else isOutCount (getNode locus 1)
              \<and> isIntersect_gi (getInterval (getNode locus 0)) (getInterval remoteNode)
              \<and> isIntersect_gi (getInterval (getNode locus 1)) (getInterval localNode))
      else length locus = 1
           \<and> isIntersect_gi (getInterval (getNode locus 0)) (getInterval localNode))"

definition passedOver :: "SVLocusNode \<Rightarrow> SVLocusNode \<Rightarrow> SVLocus \<Rightarrow> bool" where
  "passedOver localNode remoteNode locus =
     ((length locus = 1 \<or> length locus = 2) \<and> \<not> faultyLocus locus
      \<and> \<not> acceptedLocus localNode remoteNode locus)"

text \<open>
  The loop reaches \<^verbatim>\<open>svDataGroup.add\<close> (or the throw) when every locus before an
  accepted (or a faulty) one is passed over.
\<close>

fun reachesAdd :: "SVLocusNode \<Rightarrow> SVLocusNode \<Rightarrow> SVLocus list \<Rightarrow> bool" where
  "reachesAdd localNode remoteNode [] = False"
| "reachesAdd localNode remoteNode (locus # loci) =
     (if passedOver localNode remoteNode locus then reachesAdd localNode remoteNode loci
      else acceptedLocus localNode remoteNode locus)"

fun reachesFault :: "SVLocusNode \<Rightarrow> SVLocusNode \<Rightarrow> SVLocus list \<Rightarrow> bool" where
  "reachesFault localNode remoteNode [] = False"
| "reachesFault localNode remoteNode (locus # loci) =
     (if passedOver localNode remoteNode locus then reachesFault localNode remoteNode loci
      else faultyLocus locus)"

text \<open>
  A read qualifies when \<^verbatim>\<open>addSVNodeRead\<close> neither filters it nor finds it
  uninteresting; it is recorded for a pair of nodes when it qualifies and its loci reach
  the \<^verbatim>\<open>add\<close>.
\<close>

definition readQualifies :: "SVLocusScanner \<Rightarrow> bam_record \<Rightarrow> nat \<Rightarrow> bool" where
  "readQualifies scanner bamRead bamIndex =
     (\<not> isReadFiltered scanner bamRead
      \<and> ((\<not> isProperPair scanner bamRead bamIndex \<and> isLargeFragment scanner bamRead bamIndex)
         \<or> isLocalAssemblyEvidence scanner bamRead))"

definition svlocusFault :: fault where
  "svlocusFault = LogicException ''Unexpected svlocus counts from bam record''"

definition recorded :: "SVLocusScanner \<Rightarrow> chromToIndex_t \<Rightarrow> SVLocusNode \<Rightarrow> SVLocusNode \<Rightarrow> nat \<Rightarrow> bam_record \<Rightarrow> bool" where
  "recorded scanner c l r bamIndex b =
     (readQualifies scanner b bamIndex \<and> reachesAdd l r (getSVLoci scanner b bamIndex c))"

text \<open>The pair that \<^verbatim>\<open>add\<close> makes for a read whose query name is new to the group.\<close>

definition newPair :: "bam_record \<Rightarrow> SVCandidateSetReadPair" where
  "newPair bamRead = setRead bamRead \<lparr>read1 = None, read2 = None, svLink = []\<rparr>"

text \<open>
  The assignment rule in the words of the spec: the candidates are scanned in index
  order; the observation is merged into the first candidate that intersects it, or, when
  none does, a new candidate seeded from it is appended with the current length as its
  index; the pair is linked to that index when the observation is spanning.
\<close>

definition firstIntersecting :: "SVCandidateOps \<Rightarrow> SVCandidate list \<Rightarrow> SVObservation \<Rightarrow> nat option" where
  "firstIntersecting ops svs readCand =
     List.find (\<lambda>i. isIntersect ops (svs ! i) (asCandidate readCand)) [0..<length svs]"

definition linkIfSpanning ::
  "SVCandidateOps \<Rightarrow> nat \<Rightarrow> SVObservation \<Rightarrow> SVCandidateSetReadPair \<Rightarrow> SVCandidateSetReadPair" where
  "linkIfSpanning ops i readCand pair =
     (if isSpanningSV ops (asCandidate readCand)
      then pair\<lparr>svLink := svLink pair @ [\<lparr>index = i, evtype = obs_evtype readCand\<rparr>]\<rparr>
      else pair)"

definition assignObservation_spec ::
  "SVCandidateOps \<Rightarrow> SVObservation \<Rightarrow> SVCandidateSetReadPair \<Rightarrow> SVCandidate list
   \<Rightarrow> SVCandidateSetReadPair \<times> SVCandidate list" where
  "assignObservation_spec ops readCand pair svs =
     (case firstIntersecting ops svs readCand of
        Some i \<Rightarrow> (linkIfSpanning ops i readCand pair,
                   svs[i := merge ops (svs ! i) (asCandidate readCand)])
      | None \<Rightarrow> (linkIfSpanning ops (length svs) readCand pair,
                 svs @ [(asCandidate readCand)\<lparr>candidateIndex := length svs\<rparr>]))"

text \<open>
  The local and the remote read of a pair, as \<^verbatim>\<open>getCandidatesFromData\<close> picks them.
\<close>

definition localRead :: "SVCandidateSetReadPair \<Rightarrow> bam_record option" where
  "localRead pair = (if isSet (read1 pair) then read1 pair else read2 pair)"

definition remoteRead :: "SVCandidateSetReadPair \<Rightarrow> bam_record option" where
  "remoteRead pair = (if isSet (read1 pair) then read2 pair else read1 pair)"

text \<open>
  A candidate list is index-stable when every candidate stores its own position. The
  hypothesis on the merge of candidates, which the sources do not define: it leaves the
  stored index of the candidate as it is.
\<close>

definition indexStable :: "SVCandidate list \<Rightarrow> bool" where
  "indexStable svs = (\<forall>i<length svs. candidateIndex (svs ! i) = i)"

definition mergeKeepsIndex :: "SVCandidateOps \<Rightarrow> bool" where
  "mergeKeepsIndex ops = (\<forall>sv rhs. candidateIndex (merge ops sv rhs) = candidateIndex sv)"

text \<open>
  The links of a read pair are valid for a candidate list of length \<open>n\<close> when each
  refers to an index below \<open>n\<close>.
\<close>

definition linksValid :: "nat \<Rightarrow> SVCandidateSetReadPair \<Rightarrow> bool" where
  "linksValid n pair = (\<forall>sva \<in> set (svLink pair). index sva < n)"

text \<open>
  The position of index \<open>i\<close> after the candidates with the indices in \<open>D\<close> are
  removed: the number of indices below \<open>i\<close> that are kept. A move map is the map of
  the compaction that removes \<open>D\<close> from a list of length \<open>n\<close> when it sends every
  removed index to the new position of an earlier candidate that is kept, and every
  kept index to its own new position, or holds no entry for a kept index whose position
  does not change. \<open>movedIndex\<close> is the index a link has after the rewrite.
\<close>

definition newPos :: "nat set \<Rightarrow> nat \<Rightarrow> nat" where
  "newPos D i = card ({..<i} - D)"

definition compaction :: "nat set \<Rightarrow> nat \<Rightarrow> movemap_t \<Rightarrow> bool" where
  "compaction D n m =
     (finite D \<and> D \<subseteq> {1..<n} \<and> Mapping.keys m \<subseteq> {..<n}
      \<and> (\<forall>i<n. i \<notin> D \<longrightarrow>
            (Mapping.lookup m i = None \<and> newPos D i = i) \<or> Mapping.lookup m i = Some (newPos D i))
      \<and> (\<forall>d \<in> D. \<exists>t<d. t \<notin> D \<and> Mapping.lookup m d = Some (newPos D t)))"

definition movedIndex :: "movemap_t \<Rightarrow> nat \<Rightarrow> nat" where
  "movedIndex m i = (case Mapping.lookup m i of Some j \<Rightarrow> j | None \<Rightarrow> i)"

text \<open>
  The invariant of the scan of \<^verbatim>\<open>consolidateOverlap\<close> in front of the outer index
  \<open>k\<close>, and the invariant of \<^verbatim>\<open>svCandDeleter\<close> after \<^verbatim>\<open>deleteIndex(e)\<close>, for the
  list \<open>orig\<close> and the move map \<open>move0\<close> the scan left.
\<close>

definition scanInv :: "SVCandidate list \<Rightarrow> nat \<Rightarrow> scanState \<Rightarrow> bool" where
  "scanInv svs0 k st =
     (length (svs_of st) = length svs0
      \<and> deletedSVIndex st \<subseteq> {1..<k}
      \<and> length (innerIndexShift st) = k - 1
      \<and> (\<forall>j<k - 1. innerIndexShift st ! j = card {d \<in> deletedSVIndex st. d \<le> j})
      \<and> Mapping.keys (moveSVIndex st) = deletedSVIndex st
      \<and> (\<forall>d \<in> deletedSVIndex st. \<exists>t<d. t \<notin> deletedSVIndex st
            \<and> Mapping.lookup (moveSVIndex st) d = Some (newPos (deletedSVIndex st) t))
      \<and> (deletedSVIndex st = {} \<longrightarrow> svs_of st = svs0))"

definition delInv :: "nat set \<Rightarrow> SVCandidate list \<Rightarrow> movemap_t \<Rightarrow> nat \<Rightarrow> svCandDeleter \<Rightarrow> bool" where
  "delInv D orig move0 e d =
     (isLastIndex d \<and> lastIndex d = e \<and> shift d = Suc (card {x \<in> D. x < e})
      \<and> length (svs_d d) = length orig
      \<and> (\<forall>i<e. i \<notin> D \<longrightarrow> svs_d d ! newPos D i = orig ! i)
      \<and> (\<forall>i. e \<le> i \<longrightarrow> svs_d d ! i = orig ! i)
      \<and> (\<forall>i. Mapping.lookup (moveSVIndex_d d) i =
             (if i \<notin> D \<and> Min D < i \<and> i < e then Some (newPos D i)
              else Mapping.lookup move0 i)))"

text \<open>
  The state of the scan of \<^verbatim>\<open>consolidateOverlap\<close> when its outer loop reaches the
  index \<^verbatim>\<open>k\<close>: the outer loop run over the indices from 1 up to \<^verbatim>\<open>k\<close>, from the state
  of the declarations in front of the loop.
\<close>

definition scanBefore :: "SVCandidateOps \<Rightarrow> SVCandidate list \<Rightarrow> nat \<Rightarrow> fault + scanState" where
  "scanBefore ops svs k =
     outerLoop ops [1..<k]
       \<lparr>moveSVIndex = Mapping.empty, deletedSVIndex = {}, innerIndexShift = [], svs_of = svs\<rparr>"

text \<open>
  The merge target of the candidate \<^verbatim>\<open>k\<close>: the index at which the inner loop stops
  when the outer loop is at \<^verbatim>\<open>k\<close>, that is the first index below \<^verbatim>\<open>k\<close> which is not in
  \<^verbatim>\<open>deletedSVIndex\<close> and whose candidate, as the scan has left it, intersects the
  candidate \<^verbatim>\<open>k\<close>. There is none when the inner loop runs to its end.
\<close>

definition mergeTarget :: "SVCandidateOps \<Rightarrow> SVCandidate list \<Rightarrow> nat \<Rightarrow> nat option" where
  "mergeTarget ops svs k =
     (case scanBefore ops svs k of
        Inl e \<Rightarrow> None
      | Inr st \<Rightarrow>
          List.find (\<lambda>i. i \<notin> deletedSVIndex st
                          \<and> isIntersect ops (svs_of st ! i) (svs_of st ! k)) [0..<k])"

text \<open>
  The entry of the move map for the candidate \<^verbatim>\<open>k\<close> is the one of its merge target:
  a candidate with a merge target \<^verbatim>\<open>t\<close> is removed, \<^verbatim>\<open>t\<close> is kept, and the map sends
  \<^verbatim>\<open>k\<close> to the position of \<^verbatim>\<open>t\<close> after the compaction; a candidate without a merge
  target is kept.
\<close>

definition movedToTarget ::
  "SVCandidateOps \<Rightarrow> SVCandidate list \<Rightarrow> nat set \<Rightarrow> movemap_t \<Rightarrow> nat \<Rightarrow> bool" where
  "movedToTarget ops svs D m k =
     (case mergeTarget ops svs k of
        None \<Rightarrow> k \<notin> D
      | Some t \<Rightarrow> k \<in> D \<and> t < k \<and> t \<notin> D \<and> Mapping.lookup m k = Some (newPos D t))"

section \<open>Concrete inputs\<close>

text \<open>
  A locus of one node on chromosome 0 with the interval from 100 to 200 and an edge
  count of 5 to every node, a scanner that takes every read as large and anomalous and
  derives one one-sided locus at that node from it, and a finder with one stream
  holding one read.
\<close>

definition node0 :: SVLocusNode where
  "node0 = \<lparr>getInterval = \<lparr>tid = 0, range_gi = \<lparr>begin_pos = 100, end_pos = 200\<rparr>\<rparr>,
            getEvidenceRange = \<lparr>begin_pos = 100, end_pos = 200\<rparr>, isOutCount = True,
            getEdgeCount = (\<lambda>toIndex. 5)\<rparr>"

definition scanner0 :: SVLocusScanner where
  "scanner0 = \<lparr>isReadFiltered = (\<lambda>r. False), isProperPair = (\<lambda>r b. False),
     isLargeFragment = (\<lambda>r b. True), isLocalAssemblyEvidence = (\<lambda>r. False),
     getSVLoci = (\<lambda>r b c. [[node0]]), getBreakendPair = (\<lambda>r q b c. [])\<rparr>"

definition finder0 :: "nat \<Rightarrow> SVFinder" where
  "finder0 minEdgeCount =
     \<lparr>readScanner = scanner0,
      getSet = \<lparr>getLocus = (\<lambda>i. [node0]), getMinMergeEdgeCount = minEdgeCount\<rparr>,
      bamStreams = [\<lparr>fetch = (\<lambda>t b e. [\<lparr>qname = ''r1'', read_no = 1\<rparr>]), region = None\<rparr>]\<rparr>"

definition ops0 :: SVCandidateOps where
  "ops0 = \<lparr>isIntersect = (\<lambda>a b. False), merge = (\<lambda>a b. a), isSpanningSV = (\<lambda>a. False),
           isPairType = (\<lambda>t. False)\<rparr>"

definition selfEdge0 :: EdgeInfo where
  "selfEdge0 = \<lparr>locusIndex = 0, nodeIndex1 = 0, nodeIndex2 = 0\<rparr>"

definition svData0 :: SVCandidateSetData where
  "svData0 = \<lparr>getDataGroup = (\<lambda>bamIndex. emptyGroup), searchInterval = None\<rparr>"

text \<open>
  A node without the out-count flag, a node away from \<open>node0\<close>, a scanner whose
  reads have an accepted locus before a faulty one, a scanner whose reads have a locus
  that is passed over before a faulty one, and \<open>n\<close> reads with \<open>n\<close> query names.
\<close>

definition nodeNoOut :: SVLocusNode where
  "nodeNoOut = node0\<lparr>isOutCount := False\<rparr>"

definition nodeFar :: SVLocusNode where
  "nodeFar = node0\<lparr>getInterval := \<lparr>tid = 0, range_gi = \<lparr>begin_pos = 500, end_pos = 600\<rparr>\<rparr>\<rparr>"

definition scanner1 :: SVLocusScanner where
  "scanner1 = scanner0\<lparr>getSVLoci := (\<lambda>r b c. [[node0], [nodeNoOut, nodeNoOut]])\<rparr>"

definition scanner2 :: SVLocusScanner where
  "scanner2 = scanner0\<lparr>getSVLoci := (\<lambda>r b c. [[nodeFar], [nodeNoOut, nodeNoOut]])\<rparr>"

definition read0 :: bam_record where
  "read0 = \<lparr>qname = ''r1'', read_no = 1\<rparr>"

definition reads0 :: "nat \<Rightarrow> bam_record list" where
  "reads0 n = map (\<lambda>i. \<lparr>qname = replicate i (CHR ''a''), read_no = 1\<rparr>) [0..<n]"

text \<open>
  Modelled from the spec: \<^verbatim>\<open>SVBreakend\<close> and \<^verbatim>\<open>SVCandidate\<close> with their \<^verbatim>\<open>isIntersect\<close>
  and \<^verbatim>\<open>merge\<close> are declared outside the sources. Two candidates intersect when their
  breakends do, that is when the intervals of the breakends intersect; a merge extends
  the interval of each breakend by range-union and adds up its counts. In the examples
  every observation is spanning and the evidence type 0 is the only pair type.
\<close>

definition isIntersect_bp :: "SVBreakend \<Rightarrow> SVBreakend \<Rightarrow> bool" where
  "isIntersect_bp a b = isIntersect_gi (interval a) (interval b)"

definition merge_bp :: "SVBreakend \<Rightarrow> SVBreakend \<Rightarrow> SVBreakend" where
  "merge_bp a b =
     \<lparr>interval = (interval a)\<lparr>range_gi := merge_range (range_gi (interval a)) (range_gi (interval b))\<rparr>,
      getLocalPairCount = getLocalPairCount a + getLocalPairCount b,
      getPairCount = getPairCount a + getPairCount b\<rparr>"

definition isIntersect_sv :: "SVCandidate \<Rightarrow> SVCandidate \<Rightarrow> bool" where
  "isIntersect_sv a b = (isIntersect_bp (bp1 a) (bp1 b) \<and> isIntersect_bp (bp2 a) (bp2 b))"

definition merge_sv :: "SVCandidate \<Rightarrow> SVCandidate \<Rightarrow> SVCandidate" where
  "merge_sv a b = a\<lparr>bp1 := merge_bp (bp1 a) (bp1 b), bp2 := merge_bp (bp2 a) (bp2 b)\<rparr>"

definition intervalOps :: SVCandidateOps where
  "intervalOps = \<lparr>isIntersect = isIntersect_sv, merge = merge_sv, isSpanningSV = (\<lambda>sv. True),
                  isPairType = (\<lambda>t. t = 0)\<rparr>"

text \<open>
  A breakend on chromosome 0 without counts, a candidate whose second breakend is the
  interval from 100 to 150, an observation of that form, a read pair with its local
  read only and a stale link, and a scanner that derives a pair-type and another
  observation from every pair.
\<close>

definition breakend0 :: "int \<Rightarrow> int \<Rightarrow> SVBreakend" where
  "breakend0 b e =
     \<lparr>interval = \<lparr>tid = 0, range_gi = \<lparr>begin_pos = b, end_pos = e\<rparr>\<rparr>,
      getLocalPairCount = 0, getPairCount = 0\<rparr>"

definition candidate0 :: "int \<Rightarrow> int \<Rightarrow> nat \<Rightarrow> SVCandidate" where
  "candidate0 b e i = \<lparr>bp1 = breakend0 b e, bp2 = breakend0 100 150, candidateIndex = i\<rparr>"

definition observation0 :: "index_t \<Rightarrow> int \<Rightarrow> int \<Rightarrow> SVObservation" where
  "observation0 t b e =
     \<lparr>bp1 = breakend0 b e, bp2 = breakend0 100 150, candidateIndex = 0, obs_evtype = t\<rparr>"

definition pair0 :: SVCandidateSetReadPair where
  "pair0 = \<lparr>read1 = Some read0, read2 = None, svLink = [\<lparr>index = 7, evtype = 0\<rparr>]\<rparr>"

definition scanner3 :: SVLocusScanner where
  "scanner3 = scanner0\<lparr>getBreakendPair :=
                (\<lambda>r q b c. [observation0 0 100 150, observation0 1 500 600])\<rparr>"

text \<open>
  The three candidates of the consolidation scenario of the spec, and an evidence set
  whose groups hold one read pair with links to the candidates 1, 2 and 0.
\<close>

definition candidates3 :: "SVCandidate list" where
  "candidates3 = [candidate0 100 150 0, candidate0 140 200 1, candidate0 500 600 2]"

definition pairLinked :: SVCandidateSetReadPair where
  "pairLinked = \<lparr>read1 = Some read0, read2 = None,
            svLink = [\<lparr>index = 1, evtype = 0\<rparr>, \<lparr>index = 2, evtype = 0\<rparr>, \<lparr>index = 0, evtype = 1\<rparr>]\<rparr>"

definition svDataLinked :: SVCandidateSetData where
  "svDataLinked = \<lparr>getDataGroup = (\<lambda>bamIndex. \<lparr>pairs = [pairLinked], isIncomplete = False, isSkipped = False\<rparr>),
              searchInterval = None\<rparr>"

definition candidatesB :: "SVCandidate list" where
  "candidatesB = [candidate0 100 150 0, candidate0 500 600 1, candidate0 590 700 2]"

section \<open>The result validator on an empty candidate list\<close>

text \<open>
  Claim C10. Given an empty candidate list, \<^verbatim>\<open>checkResult\<close> returns without a fault,
  whatever the evidence set holds: also when read pairs still carry links, whose index
  no candidate of the empty list has.
\<close>

theorem checkResult_no_candidates:
  "checkResult ops bamCount svData [] = Inr ()"
  by (simp add: checkResult_def)

section \<open>The gate of the edge orchestrator\<close>

text \<open>
  Claim C6. When a directed count of the edge is below the minimum, \<^verbatim>\<open>findCandidateSV\<close>
  returns the cleared evidence set and the empty candidate list, and the finder with its
  streams as they were: nothing was collected, assigned or consolidated.
\<close>

theorem findCandidateSV_gated:
  assumes "edgeBelowMin finder edge"
  shows "findCandidateSV ops finder chromToIndex edge svData svs = Inr (finder, clear svData, [])"
  using assms by (simp add: findCandidateSV_def edgeBelowMin_def Let_def)

theorem findCandidateSV_gated_witness:
  "edgeBelowMin (finder0 10) selfEdge0
   \<and> findCandidateSV ops0 (finder0 10) (\<lambda>n. None) selfEdge0 svData0 []
       = Inr (finder0 10, clear svData0, [])"
proof -
  have h: "edgeBelowMin (finder0 10) selfEdge0"
    by (simp add: edgeBelowMin_def finder0_def selfEdge0_def node0_def getNode_def)
  from h findCandidateSV_gated[OF h] show ?thesis by simp
qed

section \<open>Self-edges\<close>

lemma moveGroups_isSkipped:
  "isSkipped (getDataGroup (moveGroups m bs svData) k) = isSkipped (getDataGroup svData k)"
  by (induction bs arbitrary: svData) (simp_all add: setDataGroup_def)

lemma consolidateOverlap_isSkipped:
  "consolidateOverlap ops bamCount svData svs = Inr (svData', svs')
   \<Longrightarrow> isSkipped (getDataGroup svData' k) = isSkipped (getDataGroup svData k)"
  by (auto simp: consolidateOverlap_def moveGroups_isSkipped
      split: sum.splits prod.splits if_splits)

lemma assignGroups_isSkipped:
  "assignGroups ops scanner c bs svData svs = Inr (svData', svs')
   \<Longrightarrow> isSkipped (getDataGroup svData' k) = isSkipped (getDataGroup svData k)"
proof (induction bs arbitrary: svData svs)
  case Nil
  then show ?case by simp
next
  case (Cons b bs)
  from Cons.prems obtain pairs' svs1 where
    r: "assignGroups ops scanner c bs
          (setDataGroup b ((getDataGroup svData b)\<lparr>pairs := pairs'\<rparr>) svData) svs1
        = Inr (svData', svs')"
    by (auto split: sum.splits prod.splits)
  from Cons.IH[OF r] show ?case by (simp add: setDataGroup_def)
qed

lemma getCandidatesFromData_isSkipped:
  "getCandidatesFromData ops scanner bamCount c svData svs = Inr (svData', svs')
   \<Longrightarrow> isSkipped (getDataGroup svData' k) = isSkipped (getDataGroup svData k)"
  by (auto simp: getCandidatesFromData_def split: sum.splits prod.splits
      dest!: assignGroups_isSkipped[where k = k] consolidateOverlap_isSkipped[where k = k])

text \<open>
  The evaluation of the self-edge of the one-node locus, with a minimum count of 3: the
  stream was set to the node's search interval and its read is in the evidence group.
\<close>

lemma findCandidateSV_selfEdge0:
  "\<exists>finder' svData'.
     findCandidateSV ops0 (finder0 3) (\<lambda>n. None) selfEdge0 svData0 [] = Inr (finder', svData', [])
     \<and> map region (bamStreams finder') = [Some (0, 100, 200)]
     \<and> pairs (getDataGroup svData' 0)
         = [\<lparr>read1 = Some \<lparr>qname = ''r1'', read_no = 1\<rparr>, read2 = None, svLink = []\<rparr>]
     \<and> isSkipped (getDataGroup svData' 0)"
  by (simp add: findCandidateSV_def finder0_def scanner0_def ops0_def node0_def selfEdge0_def
      svData0_def Let_def getNode_def addSVNodeData_def clear_def setNewSearchInterval_def
      merge_range_def set_new_region_def addSVNodeRead_def size_group_def emptyGroup_def
      maxDataSize_def isIntersect_gi_def is_range_intersect_def add_def setRead_def
      setDataGroup_def setSkipped_def getCandidatesFromData_def assignPair_def isSet_def
      isExcludeUnpaired_def consolidateOverlap_def consolidateCandidates_def)

text \<open>
  Claim C5, as the code has it. For a self-edge that passes the gate,
  \<^verbatim>\<open>findCandidateSV\<close> runs \<^verbatim>\<open>addSVNodeData\<close> once, from the node to itself, and not a
  second time; it then marks all evidence groups skipped and runs
  \<^verbatim>\<open>getCandidatesFromData\<close>. Every group of a result it returns is marked skipped.
\<close>

theorem findCandidateSV_self_edge:
  assumes "\<not> edgeBelowMin finder edge" and "nodeIndex1 edge = nodeIndex2 edge"
  shows "findCandidateSV ops finder chromToIndex edge svData svs =
     (case addSVNodeData (readScanner finder) (bamStreams finder) chromToIndex
             (getLocus (getSet finder) (locusIndex edge)) (nodeIndex1 edge) (nodeIndex1 edge)
             (clear svData) of
        Inl e \<Rightarrow> Inl e
      | Inr (streams1, svData1) \<Rightarrow>
          (case getCandidatesFromData ops (readScanner finder) (length (bamStreams finder))
                  chromToIndex (setSkipped svData1) [] of
             Inl e \<Rightarrow> Inl e
           | Inr (svData3, svs3) \<Rightarrow> Inr (finder\<lparr>bamStreams := streams1\<rparr>, svData3, svs3)))
    \<and> (\<forall>finder' svData' svs' bamIndex.
          findCandidateSV ops finder chromToIndex edge svData svs = Inr (finder', svData', svs')
          \<longrightarrow> isSkipped (getDataGroup svData' bamIndex))"
proof -
  have eq: "findCandidateSV ops finder chromToIndex edge svData svs =
     (case addSVNodeData (readScanner finder) (bamStreams finder) chromToIndex
             (getLocus (getSet finder) (locusIndex edge)) (nodeIndex1 edge) (nodeIndex1 edge)
             (clear svData) of
        Inl e \<Rightarrow> Inl e
      | Inr (streams1, svData1) \<Rightarrow>
          (case getCandidatesFromData ops (readScanner finder) (length (bamStreams finder))
                  chromToIndex (setSkipped svData1) [] of
             Inl e \<Rightarrow> Inl e
           | Inr (svData3, svs3) \<Rightarrow> Inr (finder\<lparr>bamStreams := streams1\<rparr>, svData3, svs3)))"
    using assms
    by (simp add: findCandidateSV_def edgeBelowMin_def Let_def split: sum.splits prod.splits)
  have sk: "isSkipped (getDataGroup svData' bamIndex)"
    if "findCandidateSV ops finder chromToIndex edge svData svs = Inr (finder', svData', svs')"
    for finder' svData' svs' bamIndex
    using that unfolding eq
    by (auto simp: setSkipped_def split: sum.splits prod.splits
        dest!: getCandidatesFromData_isSkipped[where k = bamIndex])
  from eq sk show ?thesis by blast
qed

theorem findCandidateSV_self_edge_witness:
  "\<not> edgeBelowMin (finder0 3) selfEdge0 \<and> nodeIndex1 selfEdge0 = nodeIndex2 selfEdge0
   \<and> (\<exists>finder' svData'.
         findCandidateSV ops0 (finder0 3) (\<lambda>n. None) selfEdge0 svData0 []
           = Inr (finder', svData', [])
         \<and> isSkipped (getDataGroup svData' 0)
         \<and> isSkipped (getDataGroup svData' 7))"
proof -
  have g: "\<not> edgeBelowMin (finder0 3) selfEdge0"
    by (simp add: edgeBelowMin_def finder0_def selfEdge0_def node0_def getNode_def)
  have s: "nodeIndex1 selfEdge0 = nodeIndex2 selfEdge0"
    by (simp add: selfEdge0_def)
  from findCandidateSV_selfEdge0 obtain finder' svData' where
    r: "findCandidateSV ops0 (finder0 3) (\<lambda>n. None) selfEdge0 svData0 []
        = Inr (finder', svData', [])"
    by blast
  from findCandidateSV_self_edge[OF g s, of ops0 "\<lambda>n. None" svData0 "[]"] r
  have "isSkipped (getDataGroup svData' 0)" and "isSkipped (getDataGroup svData' 7)"
    by blast+
  with g s r show ?thesis by blast
qed

text \<open>
  The claim as the spec words it fails: on the self-edge of the one-node locus the scan
  ran. The stream was set to the search interval and the read it gave is in the
  evidence group of the result.
\<close>

theorem findCandidateSV_self_edge_scanned:
  "\<exists>finder' svData'.
     findCandidateSV ops0 (finder0 3) (\<lambda>n. None) selfEdge0 svData0 [] = Inr (finder', svData', [])
     \<and> nodeIndex1 selfEdge0 = nodeIndex2 selfEdge0
     \<and> map region (bamStreams finder') = [Some (0, 100, 200)]
     \<and> size_group (getDataGroup svData' 0) = 1"
  using findCandidateSV_selfEdge0 by (auto simp: size_group_def selfEdge0_def)

section \<open>The loop over the loci of a read\<close>

lemma addToPairs_not_svlocus: "addToPairs b rep ps \<noteq> Inl svlocusFault"
  by (induction ps) (auto simp: svlocusFault_def split: sum.splits)

lemma add_not_svlocus: "add b rep g \<noteq> Inl svlocusFault"
  using addToPairs_not_svlocus[of b rep "pairs g"] by (auto simp: add_def split: sum.splits)

lemma scanLoci_step_passedOver:
  "passedOver l r locus \<Longrightarrow> scanLoci l r b rep (locus # loci) g = scanLoci l r b rep loci g"
  by (auto simp: passedOver_def faultyLocus_def acceptedLocus_def Let_def split: if_splits)

lemma scanLoci_step_accepted:
  "acceptedLocus l r locus \<Longrightarrow> scanLoci l r b rep (locus # loci) g = add b rep g"
  by (auto simp: acceptedLocus_def Let_def split: if_splits)

lemma scanLoci_step_faulty:
  "faultyLocus locus \<Longrightarrow> scanLoci l r b rep (locus # loci) g = Inl svlocusFault"
  by (auto simp: faultyLocus_def Let_def svlocusFault_def split: if_splits)

lemma scanLoci_step_malformed:
  "\<not> (length locus = 1 \<or> length locus = 2) \<Longrightarrow> scanLoci l r b rep (locus # loci) g = Inl AssertionFailed"
  by (auto simp: Let_def)

lemma locus_cases:
  "passedOver l r locus \<or> acceptedLocus l r locus \<or> faultyLocus locus \<or> \<not> (length locus = 1 \<or> length locus = 2)"
  by (auto simp: passedOver_def)

lemma accepted_not_faulty: "acceptedLocus l r locus \<Longrightarrow> \<not> faultyLocus locus"
  by (auto simp: acceptedLocus_def faultyLocus_def split: if_splits)

lemma scanLoci_fault_iff:
  "scanLoci l r b rep loci g = Inl svlocusFault \<longleftrightarrow> reachesFault l r loci"
proof (induction loci)
  case Nil
  then show ?case by simp
next
  case (Cons locus loci)
  consider "passedOver l r locus" | "\<not> passedOver l r locus" "acceptedLocus l r locus" | "\<not> passedOver l r locus" "faultyLocus locus"
    | "\<not> passedOver l r locus" "\<not> acceptedLocus l r locus" "\<not> faultyLocus locus" "\<not> (length locus = 1 \<or> length locus = 2)"
    using locus_cases by blast
  then show ?case
  proof cases
    case 1
    then show ?thesis using Cons by (simp add: scanLoci_step_passedOver del: scanLoci.simps)
  next
    case 2
    then show ?thesis using add_not_svlocus accepted_not_faulty
      by (simp add: scanLoci_step_accepted del: scanLoci.simps)
  next
    case 3
    then show ?thesis by (simp add: scanLoci_step_faulty del: scanLoci.simps)
  next
    case 4
    then show ?thesis by (simp add: scanLoci_step_malformed svlocusFault_def del: scanLoci.simps)
  qed
qed

lemma scanLoci_reachesAdd:
  "reachesAdd l r loci \<Longrightarrow> scanLoci l r b rep loci g = add b rep g"
proof (induction loci)
  case Nil
  then show ?case by simp
next
  case (Cons locus loci)
  then show ?case
    by (cases "passedOver l r locus")
       (simp_all add: scanLoci_step_passedOver scanLoci_step_accepted del: scanLoci.simps)
qed

lemma reachesFault_iff:
  "reachesFault l r loci \<longleftrightarrow>
    (\<exists>k<length loci. faultyLocus (loci ! k) \<and> (\<forall>j<k. passedOver l r (loci ! j)))"
proof (induction loci)
  case Nil
  then show ?case by simp
next
  case (Cons locus loci)
  show ?case
  proof (cases "passedOver l r locus")
    case True
    have nf: "\<not> faultyLocus locus" using True by (simp add: passedOver_def)
    show ?thesis
    proof
      assume "reachesFault l r (locus # loci)"
      with True Cons obtain k where k: "k < length loci" "faultyLocus (loci ! k)" "\<forall>j<k. passedOver l r (loci ! j)"
        by auto
      have "\<forall>j<Suc k. passedOver l r ((locus # loci) ! j)"
        using k(3) True by (auto simp: nth_Cons split: nat.splits)
      with k show "\<exists>k<length (locus # loci). faultyLocus ((locus # loci) ! k) \<and> (\<forall>j<k. passedOver l r ((locus # loci) ! j))"
        by (intro exI[of _ "Suc k"]) auto
    next
      assume "\<exists>k<length (locus # loci). faultyLocus ((locus # loci) ! k) \<and> (\<forall>j<k. passedOver l r ((locus # loci) ! j))"
      then obtain k where k: "k < length (locus # loci)" "faultyLocus ((locus # loci) ! k)" "\<forall>j<k. passedOver l r ((locus # loci) ! j)"
        by blast
      with nf obtain k' where k': "k = Suc k'" by (cases k) auto
      have "\<forall>j<k'. passedOver l r (loci ! j)"
      proof (intro allI impI)
        fix j assume "j < k'"
        then have "Suc j < k" using k' by simp
        with k(3) have "passedOver l r ((locus # loci) ! Suc j)" by blast
        then show "passedOver l r (loci ! j)" by simp
      qed
      with k k' have "\<exists>k<length loci. faultyLocus (loci ! k) \<and> (\<forall>j<k. passedOver l r (loci ! j))"
        by auto
      with Cons True show "reachesFault l r (locus # loci)" by simp
    qed
  next
    case False
    show ?thesis
    proof
      assume "reachesFault l r (locus # loci)"
      with False have "faultyLocus locus" by simp
      then show "\<exists>k<length (locus # loci). faultyLocus ((locus # loci) ! k) \<and> (\<forall>j<k. passedOver l r ((locus # loci) ! j))"
        by (intro exI[of _ 0]) simp
    next
      assume "\<exists>k<length (locus # loci). faultyLocus ((locus # loci) ! k) \<and> (\<forall>j<k. passedOver l r ((locus # loci) ! j))"
      then obtain k where k: "k < length (locus # loci)" "faultyLocus ((locus # loci) ! k)" "\<forall>j<k. passedOver l r ((locus # loci) ! j)"
        by blast
      have "k = 0"
      proof (rule ccontr)
        assume "k \<noteq> 0"
        then have "0 < k" by simp
        with k(3) have "passedOver l r ((locus # loci) ! 0)" by blast
        with False show False by simp
      qed
      with k False show "reachesFault l r (locus # loci)" by simp
    qed
  qed
qed

lemma addSVNodeRead_qualifies:
  "addSVNodeRead c scanner l r b bamIndex rep g =
     (if \<not> readQualifies scanner b bamIndex then Inr g
      else if size_group g \<ge> maxDataSize then Inr (setIncomplete g)
      else scanLoci l r b rep (getSVLoci scanner b bamIndex c) g)"
  by (auto simp: addSVNodeRead_def readQualifies_def Let_def)

text \<open>
  Claim C9, as the code has it. \<^verbatim>\<open>addSVNodeRead\<close> raises the fault for a read exactly
  when the read qualifies, the group holds fewer than 4000 pairs, and the loop over the
  loci of the read comes to a two-sided locus with neither side flagged out-count,
  which it does when every locus before that one was passed over. The throw comes
  before any change of the group, so no entry is added for the read. A read whose loci
  are all one-sided never raises it.
\<close>

theorem addSVNodeRead_svlocus_fault:
  "(addSVNodeRead c scanner l r b bamIndex rep g = Inl svlocusFault
     \<longleftrightarrow> readQualifies scanner b bamIndex \<and> size_group g < maxDataSize
         \<and> (\<exists>k<length (getSVLoci scanner b bamIndex c).
               faultyLocus (getSVLoci scanner b bamIndex c ! k)
               \<and> (\<forall>j<k. passedOver l r (getSVLoci scanner b bamIndex c ! j))))
   \<and> ((\<forall>locus \<in> set (getSVLoci scanner b bamIndex c). length locus = 1)
        \<longrightarrow> addSVNodeRead c scanner l r b bamIndex rep g \<noteq> Inl svlocusFault)"
proof -
  have a: "addSVNodeRead c scanner l r b bamIndex rep g = Inl svlocusFault
     \<longleftrightarrow> readQualifies scanner b bamIndex \<and> size_group g < maxDataSize
         \<and> (\<exists>k<length (getSVLoci scanner b bamIndex c).
               faultyLocus (getSVLoci scanner b bamIndex c ! k)
               \<and> (\<forall>j<k. passedOver l r (getSVLoci scanner b bamIndex c ! j)))"
    unfolding reachesFault_iff[symmetric] scanLoci_fault_iff[symmetric, of l r _ b rep g]
    by (simp add: addSVNodeRead_qualifies)
  have b: "addSVNodeRead c scanner l r b bamIndex rep g \<noteq> Inl svlocusFault"
    if "\<forall>locus \<in> set (getSVLoci scanner b bamIndex c). length locus = 1"
    unfolding a using that by (auto simp: faultyLocus_def)
  from a b show ?thesis by blast
qed

theorem addSVNodeRead_svlocus_fault_witness:
  "readQualifies scanner2 read0 0 \<and> size_group emptyGroup < maxDataSize
   \<and> faultyLocus (getSVLoci scanner2 read0 0 (\<lambda>n. None) ! 1)
   \<and> passedOver node0 node0 (getSVLoci scanner2 read0 0 (\<lambda>n. None) ! 0)
   \<and> addSVNodeRead (\<lambda>n. None) scanner2 node0 node0 read0 0 False emptyGroup = Inl svlocusFault"
proof -
  have q: "readQualifies scanner2 read0 0"
    by (simp add: readQualifies_def scanner2_def scanner0_def)
  have s: "size_group emptyGroup < maxDataSize"
    by (simp add: size_group_def emptyGroup_def maxDataSize_def)
  have f: "faultyLocus (getSVLoci scanner2 read0 0 (\<lambda>n. None) ! 1)"
    by (simp add: scanner2_def scanner0_def faultyLocus_def getNode_def nodeNoOut_def)
  have p: "passedOver node0 node0 (getSVLoci scanner2 read0 0 (\<lambda>n. None) ! 0)"
    by (simp add: scanner2_def scanner0_def passedOver_def faultyLocus_def acceptedLocus_def
        getNode_def nodeFar_def node0_def isIntersect_gi_def is_range_intersect_def)
  have l: "(1::nat) < length (getSVLoci scanner2 read0 0 (\<lambda>n. None))"
    by (simp add: scanner2_def scanner0_def)
  have "\<exists>k<length (getSVLoci scanner2 read0 0 (\<lambda>n. None)).
          faultyLocus (getSVLoci scanner2 read0 0 (\<lambda>n. None) ! k)
          \<and> (\<forall>j<k. passedOver node0 node0 (getSVLoci scanner2 read0 0 (\<lambda>n. None) ! j))"
    using l f p by (intro exI[of _ 1]) simp
  with q s addSVNodeRead_svlocus_fault[where c = "\<lambda>n. None" and scanner = scanner2
      and l = node0 and r = node0 and b = read0 and bamIndex = 0 and rep = False
      and g = emptyGroup]
  have "addSVNodeRead (\<lambda>n. None) scanner2 node0 node0 read0 0 False emptyGroup = Inl svlocusFault"
    by blast
  with q s f p show ?thesis by blast
qed

text \<open>
  The claim as the spec words it fails: the loci of the read hold a two-sided locus
  with neither side flagged, after a locus that meets the overlap criteria. The read is
  added to the group and nothing is raised.
\<close>

theorem addSVNodeRead_fault_not_reached:
  "readQualifies scanner1 read0 0 \<and> size_group emptyGroup < maxDataSize
   \<and> faultyLocus (getSVLoci scanner1 read0 0 (\<lambda>n. None) ! 1)
   \<and> addSVNodeRead (\<lambda>n. None) scanner1 node0 node0 read0 0 False emptyGroup
       = Inr \<lparr>pairs = [\<lparr>read1 = Some read0, read2 = None, svLink = []\<rparr>],
              isIncomplete = False, isSkipped = False\<rparr>"
  by (simp add: readQualifies_def scanner1_def scanner0_def size_group_def emptyGroup_def
      maxDataSize_def faultyLocus_def getNode_def nodeNoOut_def node0_def addSVNodeRead_def
      isIntersect_gi_def is_range_intersect_def add_def setRead_def read0_def)

section \<open>The capacity of an evidence group\<close>

lemma addToPairs_length:
  "addToPairs b rep ps = Inr ps' \<Longrightarrow> length ps' \<le> length ps + 1 \<and> length ps \<le> length ps'"
  by (induction ps arbitrary: ps') (auto split: if_splits sum.splits)

lemma add_size:
  "add b rep g = Inr g' \<Longrightarrow> size_group g' \<le> size_group g + 1"
  by (auto simp: add_def size_group_def split: sum.splits dest: addToPairs_length)

lemma scanLoci_size:
  "scanLoci l r b rep loci g = Inr g' \<Longrightarrow> size_group g' \<le> size_group g + 1"
proof (induction loci)
  case Nil
  then show ?case by simp
next
  case (Cons locus loci)
  consider "passedOver l r locus" | "\<not> passedOver l r locus" "acceptedLocus l r locus" | "\<not> passedOver l r locus" "faultyLocus locus"
    | "\<not> passedOver l r locus" "\<not> acceptedLocus l r locus" "\<not> faultyLocus locus" "\<not> (length locus = 1 \<or> length locus = 2)"
    using locus_cases by blast
  then show ?case
  proof cases
    case 1
    then show ?thesis using Cons by (simp add: scanLoci_step_passedOver del: scanLoci.simps)
  next
    case 2
    then show ?thesis using Cons.prems add_size
      by (simp add: scanLoci_step_accepted del: scanLoci.simps)
  next
    case 3
    then show ?thesis using Cons.prems by (simp add: scanLoci_step_faulty del: scanLoci.simps)
  next
    case 4
    then show ?thesis using Cons.prems by (simp add: scanLoci_step_malformed del: scanLoci.simps)
  qed
qed

lemma addSVNodeRead_cap:
  assumes "size_group g \<le> maxDataSize"
    and "addSVNodeRead c scanner l r b bamIndex rep g = Inr g'"
  shows "size_group g' \<le> maxDataSize"
proof (cases "readQualifies scanner b bamIndex \<and> size_group g < maxDataSize")
  case True
  with assms(2) have "scanLoci l r b rep (getSVLoci scanner b bamIndex c) g = Inr g'"
    by (simp add: addSVNodeRead_qualifies)
  from scanLoci_size[OF this] True show ?thesis by simp
next
  case False
  with assms show ?thesis
    by (auto simp: addSVNodeRead_qualifies setIncomplete_def size_group_def split: if_splits)
qed

lemma addSVNodeRead_full:
  assumes "readQualifies scanner b bamIndex" and "size_group g \<ge> maxDataSize"
  shows "addSVNodeRead c scanner l r b bamIndex rep g = Inr (setIncomplete g)"
  using assms by (simp add: addSVNodeRead_qualifies)

lemma addToPairs_new:
  "\<forall>p \<in> set ps. pairName p \<noteq> Some (qname b) \<Longrightarrow> addToPairs b rep ps = Inr (ps @ [newPair b])"
  by (induction ps) (auto simp: newPair_def)

lemma pairName_newPair: "pairName (newPair b) = Some (qname b)"
  by (simp add: newPair_def pairName_def setRead_def)

lemma addSVNodeReads_room:
  assumes "distinct (map qname reads)"
    and "\<forall>b \<in> set reads. recorded scanner c l r bamIndex b"
    and "\<forall>b \<in> set reads. \<forall>p \<in> set (pairs g). pairName p \<noteq> Some (qname b)"
    and "size_group g + length reads \<le> maxDataSize"
  shows "addSVNodeReads c scanner l r bamIndex rep reads g = Inr (g\<lparr>pairs := pairs g @ map newPair reads\<rparr>)"
  using assms
proof (induction reads arbitrary: g)
  case Nil
  then show ?case by simp
next
  case (Cons b reads)
  let ?g1 = "g\<lparr>pairs := pairs g @ [newPair b]\<rparr>"
  have q: "readQualifies scanner b bamIndex" and ra: "reachesAdd l r (getSVLoci scanner b bamIndex c)"
    using Cons.prems(2) by (auto simp: recorded_def)
  have lt: "size_group g < maxDataSize" using Cons.prems(4) by simp
  have new: "\<forall>p \<in> set (pairs g). pairName p \<noteq> Some (qname b)" using Cons.prems(3) by simp
  have step: "addSVNodeRead c scanner l r b bamIndex rep g = Inr ?g1"
    using q lt by (simp add: addSVNodeRead_qualifies scanLoci_reachesAdd[OF ra] add_def addToPairs_new[OF new])
  have d: "distinct (map qname reads)" using Cons.prems(1) by simp
  have r2: "\<forall>b \<in> set reads. recorded scanner c l r bamIndex b" using Cons.prems(2) by simp
  have n2: "\<forall>b' \<in> set reads. \<forall>p \<in> set (pairs ?g1). pairName p \<noteq> Some (qname b')"
    using Cons.prems(1,3) by (auto simp: pairName_newPair)
  have s2: "size_group ?g1 + length reads \<le> maxDataSize"
    using Cons.prems(4) by (simp add: size_group_def)
  from Cons.IH[OF d r2 n2 s2] step show ?case by simp
qed

lemma addSVNodeReads_full:
  assumes "\<forall>b \<in> set reads. readQualifies scanner b bamIndex"
    and "size_group g \<ge> maxDataSize" and "reads \<noteq> []"
  shows "addSVNodeReads c scanner l r bamIndex rep reads g = Inr (setIncomplete g)"
  using assms
proof (induction reads arbitrary: g)
  case Nil
  then show ?case by simp
next
  case (Cons b reads)
  have step: "addSVNodeRead c scanner l r b bamIndex rep g = Inr (setIncomplete g)"
    using Cons.prems by (simp add: addSVNodeRead_full)
  show ?case
  proof (cases "reads = []")
    case True
    with step show ?thesis by simp
  next
    case False
    have "addSVNodeReads c scanner l r bamIndex rep reads (setIncomplete g) = Inr (setIncomplete (setIncomplete g))"
      using Cons.prems False by (intro Cons.IH) (auto simp: setIncomplete_def size_group_def)
    with step show ?thesis by (simp add: setIncomplete_def)
  qed
qed

lemma addSVNodeReads_append:
  "addSVNodeReads c scanner l r bamIndex rep (xs @ ys) g =
     (case addSVNodeReads c scanner l r bamIndex rep xs g of
        Inl e \<Rightarrow> Inl e
      | Inr g' \<Rightarrow> addSVNodeReads c scanner l r bamIndex rep ys g')"
  by (induction xs arbitrary: g) (auto split: sum.splits)

lemma addSVNodeReads_overflow:
  assumes d: "distinct (map qname reads)"
    and rec: "\<forall>b \<in> set reads. recorded scanner c l r bamIndex b"
    and new: "\<forall>b \<in> set reads. \<forall>p \<in> set (pairs g). pairName p \<noteq> Some (qname b)"
    and le: "size_group g \<le> maxDataSize"
    and gt: "size_group g + length reads > maxDataSize"
  shows "addSVNodeReads c scanner l r bamIndex rep reads g =
           Inr (g\<lparr>pairs := pairs g @ map newPair (take (maxDataSize - size_group g) reads),
                   isIncomplete := True\<rparr>)"
proof -
  let ?n = "maxDataSize - size_group g"
  let ?xs = "take ?n reads" and ?ys = "drop ?n reads"
  let ?g1 = "g\<lparr>pairs := pairs g @ map newPair ?xs\<rparr>"
  have len: "length ?xs = ?n" using gt by simp
  have a: "addSVNodeReads c scanner l r bamIndex rep ?xs g = Inr ?g1"
  proof (rule addSVNodeReads_room)
    show "distinct (map qname ?xs)" using d by (simp add: take_map[symmetric] distinct_take)
    show "\<forall>b \<in> set ?xs. recorded scanner c l r bamIndex b" using rec by (meson in_set_takeD)
    show "\<forall>b \<in> set ?xs. \<forall>p \<in> set (pairs g). pairName p \<noteq> Some (qname b)" using new by (meson in_set_takeD)
    show "size_group g + length ?xs \<le> maxDataSize" using le len by simp
  qed
  have full: "size_group ?g1 \<ge> maxDataSize" using le len by (simp add: size_group_def)
  have ne: "?ys \<noteq> []" using gt le by simp
  have q: "\<forall>b \<in> set ?ys. readQualifies scanner b bamIndex"
    using rec by (meson in_set_dropD recorded_def)
  have b: "addSVNodeReads c scanner l r bamIndex rep ?ys ?g1 = Inr (setIncomplete ?g1)"
    by (rule addSVNodeReads_full[OF q full ne])
  have "addSVNodeReads c scanner l r bamIndex rep (?xs @ ?ys) g = Inr (setIncomplete ?g1)"
    unfolding addSVNodeReads_append using a b by simp
  then show ?thesis by (simp add: setIncomplete_def)
qed
lemma addSVNodeReads_cap:
  "size_group g \<le> maxDataSize \<Longrightarrow> addSVNodeReads c scanner l r bamIndex rep reads g = Inr g'
   \<Longrightarrow> size_group g' \<le> maxDataSize"
proof (induction reads arbitrary: g)
  case Nil
  then show ?case by simp
next
  case (Cons b reads)
  from Cons.prems(2) obtain g1 where
    s: "addSVNodeRead c scanner l r b bamIndex rep g = Inr g1"
    and t: "addSVNodeReads c scanner l r bamIndex rep reads g1 = Inr g'"
    by (auto split: sum.splits)
  from Cons.IH[OF addSVNodeRead_cap[OF Cons.prems(1) s] t] show ?case .
qed

lemma addSVNodeStreams_cap:
  "\<forall>k. size_group (getDataGroup svData k) \<le> maxDataSize
   \<Longrightarrow> addSVNodeStreams c scanner l r si rep bamIndex streams svData = Inr (streams', svData')
   \<Longrightarrow> size_group (getDataGroup svData' k) \<le> maxDataSize"
proof (induction streams arbitrary: bamIndex svData streams')
  case Nil
  then show ?case by simp
next
  case (Cons s streams)
  from Cons.prems(2) obtain g rest' where
    a: "addSVNodeReads c scanner l r bamIndex rep
          (fetch s (tid si) (begin_pos (range_gi si)) (end_pos (range_gi si)))
          (getDataGroup svData bamIndex) = Inr g"
    and b: "addSVNodeStreams c scanner l r si rep (bamIndex + 1) streams
              (setDataGroup bamIndex g svData) = Inr (rest', svData')"
    by (auto simp: Let_def split: sum.splits prod.splits)
  have "size_group g \<le> maxDataSize"
    using addSVNodeReads_cap[OF _ a] Cons.prems(1) by blast
  then have "\<forall>k. size_group (getDataGroup (setDataGroup bamIndex g svData) k) \<le> maxDataSize"
    using Cons.prems(1) by (simp add: setDataGroup_def)
  from Cons.IH[OF this b] show ?case .
qed

lemma addSVNodeData_cap:
  assumes "\<forall>k. size_group (getDataGroup svData k) \<le> maxDataSize"
    and "addSVNodeData scanner streams c locus i j svData = Inr (streams', svData')"
  shows "size_group (getDataGroup svData' k) \<le> maxDataSize"
proof -
  from assms(2) obtain l r si rep where
    "addSVNodeStreams c scanner l r si rep 0 streams
       (svData\<lparr>searchInterval := Some si\<rparr>) = Inr (streams', svData')"
    by (auto simp: addSVNodeData_def Let_def setNewSearchInterval_def)
  moreover have "\<forall>k. size_group (getDataGroup (svData\<lparr>searchInterval := Some si\<rparr>) k) \<le> maxDataSize"
    using assms(1) by simp
  ultimately show ?thesis using addSVNodeStreams_cap by blast
qed

lemma assignPairs_length:
  "assignPairs ops scanner c bamIndex ps svs = Inr (ps', svs') \<Longrightarrow> length ps' = length ps"
  by (induction ps arbitrary: ps' svs) (auto split: sum.splits prod.splits)

lemma assignGroups_size:
  "assignGroups ops scanner c bs svData svs = Inr (svData', svs')
   \<Longrightarrow> size_group (getDataGroup svData' k) = size_group (getDataGroup svData k)"
proof (induction bs arbitrary: svData svs)
  case Nil
  then show ?case by simp
next
  case (Cons b bs)
  from Cons.prems obtain pairs' svs1 where
    a: "assignPairs ops scanner c b (pairs (getDataGroup svData b)) svs = Inr (pairs', svs1)"
    and r: "assignGroups ops scanner c bs
          (setDataGroup b ((getDataGroup svData b)\<lparr>pairs := pairs'\<rparr>) svData) svs1
        = Inr (svData', svs')"
    by (auto split: sum.splits prod.splits)
  from Cons.IH[OF r] assignPairs_length[OF a] show ?case
    by (simp add: setDataGroup_def size_group_def)
qed

lemma moveGroups_size:
  "size_group (getDataGroup (moveGroups m bs svData) k) = size_group (getDataGroup svData k)"
  by (induction bs arbitrary: svData) (simp_all add: setDataGroup_def size_group_def)

lemma getCandidatesFromData_size:
  assumes "getCandidatesFromData ops scanner bamCount c svData svs = Inr (svData', svs')"
  shows "size_group (getDataGroup svData' k) = size_group (getDataGroup svData k)"
proof -
  from assms obtain d1 s1 where
    a: "assignGroups ops scanner c [0..<bamCount] svData svs = Inr (d1, s1)"
    and b: "consolidateOverlap ops bamCount d1 s1 = Inr (svData', svs')"
    by (auto simp: getCandidatesFromData_def split: sum.splits prod.splits)
  from b have "size_group (getDataGroup svData' k) = size_group (getDataGroup d1 k)"
    by (auto simp: consolidateOverlap_def moveGroups_size split: sum.splits prod.splits if_splits)
  with assignGroups_size[OF a] show ?thesis by simp
qed

lemma findCandidateSV_cap:
  assumes "findCandidateSV ops finder c edge svData svs = Inr (finder', svData', svs')"
  shows "size_group (getDataGroup svData' k) \<le> maxDataSize"
proof (cases "edgeBelowMin finder edge")
  case True
  with assms show ?thesis
    by (auto simp: findCandidateSV_def edgeBelowMin_def Let_def clear_def emptyGroup_def size_group_def)
next
  case False
  let ?locus = "getLocus (getSet finder) (locusIndex edge)"
  from assms False obtain st1 d1 st2 d2 where
    a: "addSVNodeData (readScanner finder) (bamStreams finder) c ?locus
          (nodeIndex1 edge) (nodeIndex2 edge) (clear svData) = Inr (st1, d1)"
    and b: "(if nodeIndex1 edge \<noteq> nodeIndex2 edge
             then addSVNodeData (readScanner finder) st1 c ?locus (nodeIndex2 edge) (nodeIndex1 edge) d1
             else Inr (st1, setSkipped d1)) = Inr (st2, d2)"
    and g: "getCandidatesFromData ops (readScanner finder) (length (bamStreams finder)) c d2 []
            = Inr (svData', svs')"
    by (auto simp: findCandidateSV_def edgeBelowMin_def Let_def split: sum.splits prod.splits)
  have c0: "\<forall>k. size_group (getDataGroup (clear svData) k) \<le> maxDataSize"
    by (simp add: clear_def emptyGroup_def size_group_def)
  have c1: "\<forall>k. size_group (getDataGroup d1 k) \<le> maxDataSize"
    using addSVNodeData_cap[OF c0 a] by blast
  have c2: "size_group (getDataGroup d2 k) \<le> maxDataSize"
  proof (cases "nodeIndex1 edge \<noteq> nodeIndex2 edge")
    case True
    with b addSVNodeData_cap[OF c1] show ?thesis by auto
  next
    case False
    with b c1 show ?thesis by (auto simp: setSkipped_def size_group_def)
  qed
  with getCandidatesFromData_size[OF g] show ?thesis by simp
qed

text \<open>
  Claim C7. A group of at most 4000 pairs has at most 4000 pairs after
  \<^verbatim>\<open>addSVNodeRead\<close>. A qualifying read that arrives at a group of 4000 pairs or more
  leaves the pairs as they are and sets the incomplete flag, without a fault. More than
  4000 reads with query names of their own, each recorded for the nodes, leave an empty
  group incomplete with the pairs of the first 4000 of them. Every group of a result of
  \<^verbatim>\<open>findCandidateSV\<close> has at most 4000 pairs.
\<close>

theorem evidence_group_capacity:
  "(size_group g \<le> 4000 \<and> addSVNodeRead c scanner l r b bamIndex rep g = Inr g'
      \<longrightarrow> size_group g' \<le> 4000)
   \<and> (readQualifies scanner b bamIndex \<and> size_group g \<ge> 4000
      \<longrightarrow> addSVNodeRead c scanner l r b bamIndex rep g = Inr (g\<lparr>isIncomplete := True\<rparr>))
   \<and> (distinct (map qname reads) \<and> (\<forall>b \<in> set reads. recorded scanner c l r bamIndex b)
       \<and> length reads > 4000
      \<longrightarrow> addSVNodeReads c scanner l r bamIndex rep reads emptyGroup
          = Inr \<lparr>pairs = map newPair (take 4000 reads), isIncomplete = True, isSkipped = False\<rparr>)
   \<and> (findCandidateSV ops finder c edge svData svs = Inr (finder', svData', svs')
      \<longrightarrow> size_group (getDataGroup svData' k) \<le> 4000)"
proof (intro conjI impI)
  assume "size_group g \<le> 4000 \<and> addSVNodeRead c scanner l r b bamIndex rep g = Inr g'"
  then show "size_group g' \<le> 4000"
    using addSVNodeRead_cap[of g c scanner l r b bamIndex rep g'] by (simp add: maxDataSize_def)
next
  assume "readQualifies scanner b bamIndex \<and> 4000 \<le> size_group g"
  then show "addSVNodeRead c scanner l r b bamIndex rep g = Inr (g\<lparr>isIncomplete := True\<rparr>)"
    using addSVNodeRead_full[of scanner b bamIndex g c l r rep]
    by (simp add: maxDataSize_def setIncomplete_def)
next
  assume h: "distinct (map qname reads) \<and> (\<forall>b \<in> set reads. recorded scanner c l r bamIndex b)
       \<and> length reads > 4000"
  have "addSVNodeReads c scanner l r bamIndex rep reads emptyGroup =
           Inr (emptyGroup\<lparr>pairs := pairs emptyGroup @ map newPair (take (maxDataSize - size_group emptyGroup) reads),
                   isIncomplete := True\<rparr>)"
    using h by (intro addSVNodeReads_overflow) (simp_all add: emptyGroup_def size_group_def maxDataSize_def)
  then show "addSVNodeReads c scanner l r bamIndex rep reads emptyGroup
          = Inr \<lparr>pairs = map newPair (take 4000 reads), isIncomplete = True, isSkipped = False\<rparr>"
    by (simp add: emptyGroup_def size_group_def maxDataSize_def)
next
  assume "findCandidateSV ops finder c edge svData svs = Inr (finder', svData', svs')"
  from findCandidateSV_cap[OF this] show "size_group (getDataGroup svData' k) \<le> 4000"
    by (simp add: maxDataSize_def)
qed

lemma reads0_props:
  "distinct (map qname (reads0 n))" "length (reads0 n) = n"
  "\<forall>b \<in> set (reads0 n). recorded scanner0 (\<lambda>n. None) node0 node0 0 b"
proof -
  have "inj_on (\<lambda>i. replicate i (CHR ''a'')) A" for A :: "nat set"
    by (rule inj_onI) (metis length_replicate)
  then show "distinct (map qname (reads0 n))"
    by (simp add: reads0_def distinct_map comp_def)
  show "length (reads0 n) = n" by (simp add: reads0_def)
  show "\<forall>b \<in> set (reads0 n). recorded scanner0 (\<lambda>n. None) node0 node0 0 b"
    by (simp add: recorded_def readQualifies_def scanner0_def passedOver_def acceptedLocus_def
        faultyLocus_def getNode_def node0_def isIntersect_gi_def is_range_intersect_def)
qed

theorem evidence_group_capacity_witness:
  "distinct (map qname (reads0 4001)) \<and> length (reads0 4001) > 4000
   \<and> (\<exists>g'. addSVNodeReads (\<lambda>n. None) scanner0 node0 node0 0 False (reads0 4001) emptyGroup = Inr g'
        \<and> size_group g' = 4000 \<and> isIncomplete g')"
proof -
  have "addSVNodeReads (\<lambda>n. None) scanner0 node0 node0 0 False (reads0 4001) emptyGroup
          = Inr \<lparr>pairs = map newPair (take 4000 (reads0 4001)), isIncomplete = True, isSkipped = False\<rparr>"
    using evidence_group_capacity[where c = "\<lambda>n. None" and scanner = scanner0 and l = node0 and r = node0
          and bamIndex = 0 and rep = False and reads = "reads0 4001"] reads0_props[of 4001]
    by simp
  then show ?thesis using reads0_props[of 4001] by (simp add: size_group_def)
qed

section \<open>The assignment of an observation\<close>

lemma find_map_list:
  "List.find P (map f xs) = map_option f (List.find (\<lambda>x. P (f x)) xs)"
  by (induction xs) simp_all

lemma find_upt_Suc:
  "List.find P [0..<Suc n] = (if P 0 then Some 0 else map_option Suc (List.find (\<lambda>i. P (Suc i)) [0..<n]))"
proof -
  have "[0..<Suc n] = 0 # map Suc [0..<n]"
    by (simp add: upt_conv_Cons map_Suc_upt del: upt_Suc)
  then show ?thesis by (simp add: find_map_list del: upt_Suc)
qed

lemma matchCandidate_find:
  "matchCandidate ops readCand k svs =
     (case List.find (\<lambda>i. isIntersect ops (svs ! i) (asCandidate readCand)) [0..<length svs] of
        None \<Rightarrow> None
      | Some i \<Rightarrow> Some (k + i, svs[i := merge ops (svs ! i) (asCandidate readCand)]))"
proof (induction svs arbitrary: k)
  case Nil
  then show ?case by simp
next
  case (Cons sv rest)
  show ?case
    by (simp add: Cons.IH find_upt_Suc del: upt_Suc split: option.splits)
qed

lemma firstIntersecting_Some:
  "firstIntersecting ops svs readCand = Some i \<longleftrightarrow>
     i < length svs \<and> isIntersect ops (svs ! i) (asCandidate readCand)
     \<and> (\<forall>j<i. \<not> isIntersect ops (svs ! j) (asCandidate readCand))"
  by (auto simp: firstIntersecting_def find_Some_iff)




section \<open>The exclusion of pair-type observations\<close>

lemma assign_excluded:
  "assignPairObservationsToSVCandidates ops True obs pair svs =
   assignPairObservationsToSVCandidates ops False
     (filter (\<lambda>readCand. \<not> isPairType ops (obs_evtype readCand)) obs) pair svs"
proof (induction obs arbitrary: pair svs)
  case Nil
  then show ?case by simp
next
  case (Cons readCand obs)
  show ?case
  proof (cases "isPairType ops (obs_evtype readCand)")
    case True
    then show ?thesis by (simp add: Cons.IH assignObservation_def)
  next
    case False
    then have "assignObservation ops True readCand pair svs = assignObservation ops False readCand pair svs"
      by (simp add: assignObservation_def)
    with False show ?thesis by (simp add: Cons.IH split: prod.splits)
  qed
qed

text \<open>
  Claim C8. For a read pair whose remote read is absent, pair-type exclusion is on:
  \<^verbatim>\<open>getCandidatesFromData\<close> assigns the observations of the pair as if the pair-type
  ones had not been derived. No pair-type observation is merged into a candidate or
  makes one, and the others are assigned as they are without the exclusion.
\<close>

theorem assignPair_excludes_pair_type:
  assumes "localRead pair = Some localBamRec" and "remoteRead pair = None"
  shows "assignPair ops scanner chromToIndex bamIndex pair svs =
     Inr (assignPairObservationsToSVCandidates ops False
            (filter (\<lambda>readCand. \<not> isPairType ops (obs_evtype readCand))
               (getBreakendPair scanner localBamRec None bamIndex chromToIndex))
            (pair\<lparr>svLink := []\<rparr>) svs)"
  using assms
  by (auto simp: assignPair_def localRead_def remoteRead_def isSet_def isExcludeUnpaired_def
      Let_def assign_excluded split: if_splits option.splits)

theorem assignPair_excludes_pair_type_witness:
  "localRead pair0 = Some read0 \<and> remoteRead pair0 = None
   \<and> assignPair intervalOps scanner3 (\<lambda>n. None) 0 pair0 [candidate0 100 150 0]
       = Inr (pair0\<lparr>svLink := [\<lparr>index = 1, evtype = 1\<rparr>]\<rparr>,
              [candidate0 100 150 0, candidate0 500 600 1])"
proof -
  have l: "localRead pair0 = Some read0" and r: "remoteRead pair0 = None"
    by (simp_all add: localRead_def remoteRead_def pair0_def isSet_def)
  have "assignPairObservationsToSVCandidates intervalOps False
            (filter (\<lambda>readCand. \<not> isPairType intervalOps (obs_evtype readCand))
               (getBreakendPair scanner3 read0 None 0 (\<lambda>n. None)))
            (pair0\<lparr>svLink := []\<rparr>) [candidate0 100 150 0]
        = (pair0\<lparr>svLink := [\<lparr>index = 1, evtype = 1\<rparr>]\<rparr>,
           [candidate0 100 150 0, candidate0 500 600 1])"
    by (simp add: scanner3_def scanner0_def intervalOps_def observation0_def candidate0_def
        breakend0_def pair0_def assignObservation_def pushLink_def asCandidate_def
        SVCandidate.truncate_def isIntersect_sv_def isIntersect_bp_def isIntersect_gi_def
        is_range_intersect_def)
  with l r assignPair_excludes_pair_type[OF l r, of intervalOps scanner3 "\<lambda>n. None" 0
      "[candidate0 100 150 0]"]
  show ?thesis by simp
qed

section \<open>Positions after a compaction\<close>

lemma card_below_le:
  assumes "0 \<notin> D"
  shows "card {d \<in> D. d \<le> i} \<le> i"
proof -
  have "{d \<in> D. d \<le> i} \<subseteq> {1..i}" using assms by (auto simp: Suc_le_eq) (metis gr0I)
  then have "card {d \<in> D. d \<le> i} \<le> card {1..i}" by (intro card_mono) auto
  then show ?thesis by simp
qed

lemma newPos_eq:
  "i - card {d \<in> D. d < i} = newPos D i"
proof -
  have e: "{..<i} - D = {..<i} - {d \<in> D. d < i}" by auto
  have "card ({..<i} - {d \<in> D. d < i}) = card {..<i} - card {d \<in> D. d < i}"
    by (intro card_Diff_subset) auto
  with e show ?thesis by (simp add: newPos_def)
qed

lemma newPos_le_eq:
  assumes "i \<notin> D"
  shows "i - card {d \<in> D. d \<le> i} = newPos D i"
proof -
  have "{d \<in> D. d \<le> i} = {d \<in> D. d < i}" using assms by (auto simp: le_less)
  then show ?thesis by (simp add: newPos_eq)
qed

lemma newPos_strict:
  assumes "i \<notin> D" and "i < j"
  shows "newPos D i < newPos D j"
proof -
  have "{..<i} - D \<subset> {..<j} - D" using assms by auto
  then show ?thesis unfolding newPos_def by (intro psubset_card_mono) auto
qed

lemma newPos_mono: "i \<le> j \<Longrightarrow> newPos D i \<le> newPos D j"
  unfolding newPos_def by (intro card_mono) auto

lemma newPos_le: "newPos D i \<le> i"
  unfolding newPos_def using card_mono[of "{..<i}" "{..<i} - D"] by simp

lemma newPos_total:
  assumes "finite D" and "D \<subseteq> {..<n}"
  shows "newPos D n = n - card D"
proof -
  have "card ({..<n} - D) = card {..<n} - card D" using assms by (intro card_Diff_subset) auto
  then show ?thesis by (simp add: newPos_def)
qed

lemma newPos_below_first:
  assumes "\<forall>d \<in> D. i \<le> d"
  shows "newPos D i = i"
proof -
  have "{..<i} - D = {..<i}" using assms by auto
  then show ?thesis by (simp add: newPos_def)
qed

section \<open>The scan of the overlap consolidator\<close>

lemma innerLoop_result:
  assumes "\<forall>i \<in> set is. i < length (innerIndexShift st)
             \<and> (i \<notin> deletedSVIndex st \<longrightarrow> innerIndexShift st ! i \<le> i)"
  shows "innerLoop ops k is st = Inr st
         \<or> (\<exists>i \<in> set is. i \<notin> deletedSVIndex st
              \<and> innerLoop ops k is st =
                  Inr (st\<lparr>svs_of := (svs_of st)[i := merge ops (svs_of st ! i) (svs_of st ! k)],
                          moveSVIndex := Mapping.update k (i - innerIndexShift st ! i) (moveSVIndex st),
                          deletedSVIndex := insert k (deletedSVIndex st)\<rparr>))"
  using assms
proof (induction "is")
  case Nil
  then show ?case by simp
next
  case (Cons i "is")
  then show ?case by (auto simp: Let_def)
qed

lemma card_le_insert_above:
  assumes "j < k"
  shows "card {d \<in> insert k D. d \<le> j} = card {d \<in> D. d \<le> (j::nat)}"
proof -
  have "{d \<in> insert k D. d \<le> j} = {d \<in> D. d \<le> j}" using assms by auto
  then show ?thesis by simp
qed

lemma newPos_insert_above:
  assumes "t < k"
  shows "newPos (insert k D) t = newPos D t"
proof -
  have "{..<t} - insert k D = {..<t} - D" using assms by auto
  then show ?thesis by (simp add: newPos_def)
qed

lemma outer_step:
  assumes inv: "scanInv svs0 k st" and k1: "1 \<le> k"
  shows "\<exists>st'. outerLoop ops (k # rest) st = outerLoop ops rest st' \<and> scanInv svs0 (Suc k) st'"
proof -
  let ?D = "deletedSVIndex st"
  let ?prev = "if k \<le> 1 then 0 else innerIndexShift st ! (k - 2)"
  let ?st1 = "st\<lparr>innerIndexShift := innerIndexShift st @ [?prev + (if k - 1 \<in> ?D then 1 else 0)]\<rparr>"
  from inv have len: "length (svs_of st) = length svs0" and D: "?D \<subseteq> {1..<k}"
    and ls: "length (innerIndexShift st) = k - 1"
    and sh: "\<forall>j<k - 1. innerIndexShift st ! j = card {d \<in> ?D. d \<le> j}"
    and keys: "Mapping.keys (moveSVIndex st) = ?D"
    and mv: "\<forall>d \<in> ?D. \<exists>t<d. t \<notin> ?D \<and> Mapping.lookup (moveSVIndex st) d = Some (newPos ?D t)"
    and un: "?D = {} \<longrightarrow> svs_of st = svs0"
    by (auto simp: scanInv_def)
  have z: "0 \<notin> ?D" using D by auto
  have fin: "finite ?D" using D by (meson finite_atLeastLessThan finite_subset)
  have last: "?prev + (if k - 1 \<in> ?D then 1 else 0) = card {d \<in> ?D. d \<le> k - 1}"
  proof (cases "k \<le> 1")
    case True
    then have "?D = {}" using D by auto
    with True show ?thesis by simp
  next
    case False
    then have p: "?prev = card {d \<in> ?D. d \<le> k - 2}" using sh by simp
    have s: "{d \<in> ?D. d \<le> k - 1} = {d \<in> ?D. d \<le> k - 2} \<union> (if k - 1 \<in> ?D then {k - 1} else {})"
      using False by (auto simp: le_less)
    have f2: "finite {d \<in> ?D. d \<le> k - 2}" using fin by simp
    have dis: "k - 1 \<notin> {d \<in> ?D. d \<le> k - 2}" using False by auto
    show ?thesis
    proof (cases "k - 1 \<in> ?D")
      case True
      with s have "{d \<in> ?D. d \<le> k - 1} = insert (k - 1) {d \<in> ?D. d \<le> k - 2}" by auto
      with f2 dis p True show ?thesis by simp
    next
      case False
      with s p show ?thesis by simp
    qed
  qed
  have ls1: "length (innerIndexShift ?st1) = k" using ls k1 by simp
  have sh1: "\<forall>j<k. innerIndexShift ?st1 ! j = card {d \<in> ?D. d \<le> j}"
  proof (intro allI impI)
    fix j assume j: "j < k"
    show "innerIndexShift ?st1 ! j = card {d \<in> ?D. d \<le> j}"
    proof (cases "j < k - 1")
      case True
      with sh ls show ?thesis by (simp add: nth_append)
    next
      case False
      with j have "j = k - 1" by simp
      with last ls show ?thesis by (simp add: nth_append)
    qed
  qed
  have pre: "\<forall>i \<in> set [0..<k]. i < length (innerIndexShift ?st1)
             \<and> (i \<notin> deletedSVIndex ?st1 \<longrightarrow> innerIndexShift ?st1 ! i \<le> i)"
    using ls1 sh1 card_below_le[OF z] by auto
  have step: "outerLoop ops (k # rest) st =
        (case innerLoop ops k [0..<k] ?st1 of Inl e \<Rightarrow> Inl e | Inr st2 \<Rightarrow> outerLoop ops rest st2)"
    by (simp add: Let_def)
  from innerLoop_result[OF pre, of ops k]
  consider (same) "innerLoop ops k [0..<k] ?st1 = Inr ?st1"
    | (hit) i where "i < k" "i \<notin> ?D"
        "innerLoop ops k [0..<k] ?st1 =
           Inr (?st1\<lparr>svs_of := (svs_of ?st1)[i := merge ops (svs_of ?st1 ! i) (svs_of ?st1 ! k)],
                     moveSVIndex := Mapping.update k (i - innerIndexShift ?st1 ! i) (moveSVIndex ?st1),
                     deletedSVIndex := insert k (deletedSVIndex ?st1)\<rparr>)"
    by auto
  then show ?thesis
  proof cases
    case same
    have "scanInv svs0 (Suc k) ?st1"
      unfolding scanInv_def using len D ls1 sh1 keys mv un by auto
    with step same show ?thesis by auto
  next
    case (hit i)
    let ?st2 = "?st1\<lparr>svs_of := (svs_of ?st1)[i := merge ops (svs_of ?st1 ! i) (svs_of ?st1 ! k)],
                     moveSVIndex := Mapping.update k (i - innerIndexShift ?st1 ! i) (moveSVIndex ?st1),
                     deletedSVIndex := insert k (deletedSVIndex ?st1)\<rparr>"
    have kD: "k \<notin> ?D" using D by auto
    have tgt: "i - innerIndexShift ?st1 ! i = newPos (insert k ?D) i"
      using sh1 hit(1,2) newPos_le_eq[of i ?D] newPos_insert_above[of i k ?D] by simp
    have a: "deletedSVIndex ?st2 \<subseteq> {1..<Suc k}" using D k1 by auto
    have b: "\<forall>j<Suc k - 1. innerIndexShift ?st2 ! j = card {d \<in> deletedSVIndex ?st2. d \<le> j}"
    proof (intro allI impI)
      fix j assume "j < Suc k - 1"
      then have j: "j < k" by simp
      have "deletedSVIndex ?st2 = insert k ?D" by simp
      then have "card {d \<in> deletedSVIndex ?st2. d \<le> j} = card {d \<in> ?D. d \<le> j}"
        using card_le_insert_above[OF j, of ?D] by simp
      moreover have "innerIndexShift ?st2 ! j = innerIndexShift ?st1 ! j" by simp
      ultimately show "innerIndexShift ?st2 ! j = card {d \<in> deletedSVIndex ?st2. d \<le> j}"
        using sh1 j by simp
    qed
    have c: "Mapping.keys (moveSVIndex ?st2) = deletedSVIndex ?st2" using keys by simp
    have d: "\<forall>d \<in> deletedSVIndex ?st2. \<exists>t<d. t \<notin> deletedSVIndex ?st2
            \<and> Mapping.lookup (moveSVIndex ?st2) d = Some (newPos (deletedSVIndex ?st2) t)"
    proof
      fix d assume "d \<in> deletedSVIndex ?st2"
      then consider "d = k" | "d \<in> ?D" "d \<noteq> k" by auto
      then show "\<exists>t<d. t \<notin> deletedSVIndex ?st2
            \<and> Mapping.lookup (moveSVIndex ?st2) d = Some (newPos (deletedSVIndex ?st2) t)"
      proof cases
        case 1
        with hit(1,2) tgt show ?thesis
          by (intro exI[of _ i]) (auto simp: Mapping.lookup_update')
      next
        case 2
        with mv obtain t where t: "t < d" "t \<notin> ?D" "Mapping.lookup (moveSVIndex st) d = Some (newPos ?D t)"
          by blast
        have "d < k" using 2 D by auto
        with t have "t < k" by simp
        with t 2 show ?thesis
          by (intro exI[of _ t]) (auto simp: Mapping.lookup_update' newPos_insert_above)
      qed
    qed
    have "scanInv svs0 (Suc k) ?st2"
      unfolding scanInv_def using len ls1 a b c d by simp
    with step hit(3) show ?thesis by auto
  qed
qed

lemma outerLoop_inv:
  assumes "scanInv svs0 k st" and "1 \<le> k"
  shows "\<exists>st'. outerLoop ops [k..<n] st = Inr st' \<and> scanInv svs0 (max k n) st'"
  using assms
proof (induction "n - k" arbitrary: k st)
  case 0
  then have "[k..<n] = []" and "max k n = k" by auto
  with 0 show ?case by simp
next
  case (Suc m)
  then have kn: "k < n" by simp
  then have u: "[k..<n] = k # [Suc k..<n]" by (simp add: upt_conv_Cons)
  from outer_step[OF Suc.prems, of ops "[Suc k..<n]"] obtain st1 where
    s: "outerLoop ops (k # [Suc k..<n]) st = outerLoop ops [Suc k..<n] st1"
    and i: "scanInv svs0 (Suc k) st1" by blast
  have "m = n - Suc k" using Suc.hyps(2) by simp
  from Suc.hyps(1)[OF this i] obtain st' where
    "outerLoop ops [Suc k..<n] st1 = Inr st'" "scanInv svs0 (max (Suc k) n) st'" by auto
  moreover have "max (Suc k) n = max k n" using kn by simp
  ultimately show ?case using u s by simp
qed

lemma scan_result:
  "\<exists>st. outerLoop ops [1..<length svs]
          \<lparr>moveSVIndex = Mapping.empty, deletedSVIndex = {}, innerIndexShift = [],
           svs_of = svs\<rparr> = Inr st \<and> scanInv svs (max 1 (length svs)) st"
proof -
  have "scanInv svs 1 \<lparr>moveSVIndex = Mapping.empty, deletedSVIndex = {}, innerIndexShift = [],
           svs_of = svs\<rparr>"
    by (simp add: scanInv_def)
  from outerLoop_inv[OF this, of ops "length svs"] show ?thesis by simp
qed

section \<open>The deletion of the merged candidates\<close>

lemma moveLoop_range:
  assumes "0 < s" and "s \<le> a" and "shift d = s" and "b \<le> length (svs_d d)"
  shows "\<exists>d'. moveLoop [a..<b] d = Inr d'
      \<and> shift d' = s \<and> isLastIndex d' = isLastIndex d \<and> lastIndex d' = lastIndex d
      \<and> length (svs_d d') = length (svs_d d)
      \<and> (\<forall>p. svs_d d' ! p = (if a - s \<le> p \<and> p < b - s \<and> a < b then svs_d d ! (p + s) else svs_d d ! p))
      \<and> (\<forall>i. Mapping.lookup (moveSVIndex_d d') i =
             (if a \<le> i \<and> i < b then Some (i - s) else Mapping.lookup (moveSVIndex_d d) i))"
  using assms
proof (induction "b - a" arbitrary: a d)
  case 0
  then have "[a..<b] = []" by simp
  with 0 show ?case by auto
next
  case (Suc m)
  then have ab: "a < b" by simp
  let ?d1 = "d\<lparr>svs_d := (svs_d d)[a - s := svs_d d ! a],
                moveSVIndex_d := Mapping.update a (a - s) (moveSVIndex_d d)\<rparr>"
  have u: "[a..<b] = a # [Suc a..<b]" using ab by (simp add: upt_conv_Cons)
  have step: "moveLoop [a..<b] d = moveLoop [Suc a..<b] ?d1"
    unfolding u using Suc.prems by simp
  have m: "m = b - Suc a" using Suc.hyps(2) by simp
  have p1: "s \<le> Suc a" using Suc.prems(2) by simp
  have p2: "shift ?d1 = s" using Suc.prems(3) by simp
  have p3: "b \<le> length (svs_d ?d1)" using Suc.prems(4) by simp
  from Suc.hyps(1)[OF m Suc.prems(1) p1 p2 p3] obtain d' where
    r: "moveLoop [Suc a..<b] ?d1 = Inr d'"
    and f: "shift d' = s" "isLastIndex d' = isLastIndex ?d1" "lastIndex d' = lastIndex ?d1"
       "length (svs_d d') = length (svs_d ?d1)"
    and sv: "\<forall>p. svs_d d' ! p =
               (if Suc a - s \<le> p \<and> p < b - s \<and> Suc a < b then svs_d ?d1 ! (p + s) else svs_d ?d1 ! p)"
    and mv: "\<forall>i. Mapping.lookup (moveSVIndex_d d') i =
             (if Suc a \<le> i \<and> i < b then Some (i - s) else Mapping.lookup (moveSVIndex_d ?d1) i)"
    by blast
  have inl: "a - s < length (svs_d d)" using ab Suc.prems(4) by simp
  have sv': "\<forall>p. svs_d d' ! p = (if a - s \<le> p \<and> p < b - s \<and> a < b then svs_d d ! (p + s) else svs_d d ! p)"
  proof
    fix p
    show "svs_d d' ! p = (if a - s \<le> p \<and> p < b - s \<and> a < b then svs_d d ! (p + s) else svs_d d ! p)"
    proof (cases "p = a - s")
      case True
      then have "\<not> (Suc a - s \<le> p)" using Suc.prems(2) by simp
      with sv have "svs_d d' ! p = svs_d ?d1 ! p" by simp
      also have "\<dots> = svs_d d ! a" using True inl by simp
      finally show ?thesis using True ab Suc.prems(1,2) by simp
    next
      case False
      have e1: "svs_d ?d1 ! p = svs_d d ! p" using False by simp
      have c: "(Suc a - s \<le> p \<and> p < b - s \<and> Suc a < b) \<longleftrightarrow> (a - s \<le> p \<and> p < b - s \<and> a < b)"
        using False Suc.prems(1,2) ab by auto
      show ?thesis
      proof (cases "Suc a - s \<le> p \<and> p < b - s \<and> Suc a < b")
        case True
        then have "p + s \<noteq> a - s" using Suc.prems(1,2) by linarith
        then have "svs_d ?d1 ! (p + s) = svs_d d ! (p + s)" by simp
        moreover from sv True have "svs_d d' ! p = svs_d ?d1 ! (p + s)" by auto
        moreover from True c have "a - s \<le> p \<and> p < b - s \<and> a < b" by blast
        ultimately show ?thesis by auto
      next
        case F: False
        from sv F have "svs_d d' ! p = svs_d ?d1 ! p" by auto
        with e1 have "svs_d d' ! p = svs_d d ! p" by simp
        moreover from F c have "\<not> (a - s \<le> p \<and> p < b - s \<and> a < b)" by blast
        ultimately show ?thesis by auto
      qed
    qed
  qed
  have mv': "\<forall>i. Mapping.lookup (moveSVIndex_d d') i =
             (if a \<le> i \<and> i < b then Some (i - s) else Mapping.lookup (moveSVIndex_d d) i)"
    using mv ab by (auto simp: Mapping.lookup_update')
  from step r f sv' mv' show ?case by simp
qed

lemma deleteIndex_step:
  assumes inv: "delInv D orig move0 e d" and eD: "e \<in> D" and fin: "finite D" and z: "0 \<notin> D"
    and lt: "e < e'" and le: "e' \<le> length orig" and gap: "\<forall>x \<in> D. \<not> (e < x \<and> x < e')"
  shows "\<exists>d'. deleteIndex e' d = Inr d' \<and> delInv D orig move0 e' d'"
proof -
  let ?s = "Suc (card {x \<in> D. x < e})"
  from inv have il: "isLastIndex d" and li: "lastIndex d = e" and sh: "shift d = ?s"
    and len: "length (svs_d d) = length orig"
    and kept: "\<forall>i<e. i \<notin> D \<longrightarrow> svs_d d ! newPos D i = orig ! i"
    and rest: "\<forall>i. e \<le> i \<longrightarrow> svs_d d ! i = orig ! i"
    and mv: "\<forall>i. Mapping.lookup (moveSVIndex_d d) i =
             (if i \<notin> D \<and> Min D < i \<and> i < e then Some (newPos D i) else Mapping.lookup move0 i)"
    by (auto simp: delInv_def)
  have s_le: "?s = card {x \<in> D. x \<le> e}"
  proof -
    have "{x \<in> D. x \<le> e} = insert e {x \<in> D. x < e}" using eD by auto
    moreover have "finite {x \<in> D. x < e}" using fin by simp
    ultimately show ?thesis by simp
  qed
  have s_e: "?s \<le> e" using s_le card_below_le[OF z, of e] by simp
  have np_e: "newPos D e = Suc e - ?s" using newPos_eq[of e D] s_e by simp
  have sh_between: "i - ?s = newPos D i" if "e < i" "i < e'" for i
  proof -
    have "{x \<in> D. x < i} = {x \<in> D. x \<le> e}" using that gap by (auto simp: not_less)
    then show ?thesis using newPos_eq[of i D] s_le by simp
  qed
  have "\<exists>d1. moveLoop [Suc e..<e'] d = Inr d1
      \<and> shift d1 = ?s \<and> isLastIndex d1 = isLastIndex d \<and> lastIndex d1 = lastIndex d
      \<and> length (svs_d d1) = length (svs_d d)
      \<and> (\<forall>p. svs_d d1 ! p = (if Suc e - ?s \<le> p \<and> p < e' - ?s \<and> Suc e < e' then svs_d d ! (p + ?s) else svs_d d ! p))
      \<and> (\<forall>i. Mapping.lookup (moveSVIndex_d d1) i =
             (if Suc e \<le> i \<and> i < e' then Some (i - ?s) else Mapping.lookup (moveSVIndex_d d) i))"
    using s_e sh le len by (intro moveLoop_range) simp_all
  then obtain d1 where
    r: "moveLoop [Suc e..<e'] d = Inr d1"
    and f: "shift d1 = ?s" "length (svs_d d1) = length (svs_d d)"
    and sv: "\<forall>p. svs_d d1 ! p = (if Suc e - ?s \<le> p \<and> p < e' - ?s \<and> Suc e < e' then svs_d d ! (p + ?s) else svs_d d ! p)"
    and mv1: "\<forall>i. Mapping.lookup (moveSVIndex_d d1) i =
             (if Suc e \<le> i \<and> i < e' then Some (i - ?s) else Mapping.lookup (moveSVIndex_d d) i)"
    by blast
  let ?d' = "d1\<lparr>lastIndex := e', isLastIndex := True, shift := shift d1 + 1\<rparr>"
  have res: "deleteIndex e' d = Inr ?d'"
    using il li le len r by (simp add: deleteIndex_def)
  have c_shift: "shift ?d' = Suc (card {x \<in> D. x < e'})"
  proof -
    have "{x \<in> D. x < e'} = {x \<in> D. x \<le> e}" using gap lt by (auto simp: not_less)
    then show ?thesis using f(1) s_le by simp
  qed
  have c_kept: "\<forall>i<e'. i \<notin> D \<longrightarrow> svs_d ?d' ! newPos D i = orig ! i"
  proof (intro allI impI)
    fix i assume i: "i < e'" "i \<notin> D"
    then have "i \<noteq> e" using eD by auto
    then consider "i < e" | "e < i" by linarith
    then show "svs_d ?d' ! newPos D i = orig ! i"
    proof cases
      case 1
      have "newPos D i < newPos D e" using newPos_strict[OF i(2) 1] .
      then have "\<not> (Suc e - ?s \<le> newPos D i)" using np_e by simp
      with sv have "svs_d d1 ! newPos D i = svs_d d ! newPos D i" by simp
      with kept 1 i show ?thesis by simp
    next
      case 2
      have n: "newPos D i = i - ?s" using sh_between[OF 2 i(1)] by simp
      have si: "?s \<le> i" using s_e 2 by simp
      have "Suc e - ?s \<le> i - ?s \<and> i - ?s < e' - ?s \<and> Suc e < e'" using 2 i(1) si by auto
      with sv have "svs_d d1 ! (i - ?s) = svs_d d ! (i - ?s + ?s)" by simp
      also have "\<dots> = svs_d d ! i" using si by simp
      also have "\<dots> = orig ! i" using rest 2 by simp
      finally show ?thesis using n by simp
    qed
  qed
  have c_rest: "\<forall>i. e' \<le> i \<longrightarrow> svs_d ?d' ! i = orig ! i"
  proof (intro allI impI)
    fix i assume i: "e' \<le> i"
    then have "\<not> (i < e' - ?s)" by simp
    with sv have "svs_d d1 ! i = svs_d d ! i" by simp
    with rest i lt show "svs_d ?d' ! i = orig ! i" by simp
  qed
  have minD: "Min D \<le> e" using fin eD by simp
  have c_mv: "\<forall>i. Mapping.lookup (moveSVIndex_d ?d') i =
             (if i \<notin> D \<and> Min D < i \<and> i < e' then Some (newPos D i) else Mapping.lookup move0 i)"
  proof
    fix i
    show "Mapping.lookup (moveSVIndex_d ?d') i =
             (if i \<notin> D \<and> Min D < i \<and> i < e' then Some (newPos D i) else Mapping.lookup move0 i)"
    proof (cases "e < i \<and> i < e'")
      case True
      then have "i \<notin> D" using gap by auto
      moreover have "Min D < i" using minD True by simp
      ultimately show ?thesis using True mv1 sh_between[of i] by simp
    next
      case False
      then have "Mapping.lookup (moveSVIndex_d ?d') i = Mapping.lookup (moveSVIndex_d d) i"
        using mv1 by auto
      moreover have "(i \<notin> D \<and> Min D < i \<and> i < e') \<longleftrightarrow> (i \<notin> D \<and> Min D < i \<and> i < e)"
        using False eD lt by (cases "i = e") auto
      ultimately show ?thesis using mv by simp
    qed
  qed
  have "delInv D orig move0 e' ?d'"
    unfolding delInv_def using c_shift c_kept c_rest c_mv f(2) len by simp
  with res show ?thesis by blast
qed

lemma deleteIndices_inv:
  assumes "delInv D orig move0 e d" and "e \<in> D" and "finite D" and "0 \<notin> D"
    and "D \<subseteq> {..<length orig}"
    and "sorted rest" and "distinct rest" and "set rest = {x \<in> D. e < x}"
  shows "\<exists>d'. deleteIndices (rest @ [length orig]) d = Inr d' \<and> delInv D orig move0 (length orig) d'"
  using assms
proof (induction rest arbitrary: e d)
  case Nil
  have lt: "e < length orig" using Nil.prems(2,5) by auto
  have gap: "\<forall>x \<in> D. \<not> (e < x \<and> x < length orig)" using Nil.prems(8) by auto
  from deleteIndex_step[OF Nil.prems(1,2,3,4) lt _ gap] show ?case by auto
next
  case (Cons e' rest)
  have e': "e' \<in> D" "e < e'" using Cons.prems(8) by auto
  have le: "e' \<le> length orig" using e'(1) Cons.prems(5) by auto
  have gap: "\<forall>x \<in> D. \<not> (e < x \<and> x < e')"
  proof
    fix x assume "x \<in> D"
    show "\<not> (e < x \<and> x < e')"
    proof
      assume a: "e < x \<and> x < e'"
      with \<open>x \<in> D\<close> Cons.prems(8) have "x \<in> set (e' # rest)" by auto
      with Cons.prems(6) have "e' \<le> x" by auto
      with a show False by simp
    qed
  qed
  from deleteIndex_step[OF Cons.prems(1,2,3,4) e'(2) le gap] obtain d1 where
    s: "deleteIndex e' d = Inr d1" and i: "delInv D orig move0 e' d1" by blast
  have so: "sorted rest" and di: "distinct rest" using Cons.prems(6,7) by auto
  have st: "set rest = {x \<in> D. e' < x}"
  proof (intro set_eqI iffI)
    fix x assume x: "x \<in> set rest"
    then have "x \<in> D" using Cons.prems(8) by auto
    moreover have "e' \<le> x" using x Cons.prems(6) by auto
    moreover have "x \<noteq> e'" using x Cons.prems(7) by auto
    ultimately show "x \<in> {x \<in> D. e' < x}" by auto
  next
    fix x assume "x \<in> {x \<in> D. e' < x}"
    then have "x \<in> D" "e' < x" by auto
    then have "x \<in> set (e' # rest)" using Cons.prems(8) e'(2) by auto
    with \<open>e' < x\<close> show "x \<in> set rest" by auto
  qed
  from Cons.IH[OF i e'(1) Cons.prems(3,4,5) so di st] s show ?case by auto
qed

lemma deleteIndices_result:
  assumes fin: "finite D" and z: "0 \<notin> D" and sub: "D \<subseteq> {..<length orig}" and ne: "D \<noteq> {}"
  shows "\<exists>d'. deleteIndices (sorted_list_of_set D @ [length orig])
                 \<lparr>shift = 0, isLastIndex = False, lastIndex = 0, svs_d = orig,
                  moveSVIndex_d = move0\<rparr> = Inr d'
              \<and> delInv D orig move0 (length orig) d'"
proof -
  let ?d0 = "\<lparr>shift = 0, isLastIndex = False, lastIndex = 0, svs_d = orig, moveSVIndex_d = move0\<rparr>"
  let ?e = "Min D"
  let ?rest = "sorted_list_of_set (D - {?e})"
  let ?d1 = "?d0\<lparr>lastIndex := ?e, isLastIndex := True, shift := 1\<rparr>"
  have l: "sorted_list_of_set D = ?e # ?rest" using fin ne by (rule sorted_list_of_set_nonempty)
  have eD: "?e \<in> D" using fin ne by simp
  then have ele: "?e \<le> length orig" using sub by auto
  have first: "deleteIndex ?e ?d0 = Inr ?d1" using ele by (simp add: deleteIndex_def)
  have emp: "{x \<in> D. x < ?e} = {}" using fin by (auto simp: not_less)
  have below: "newPos D i = i" if "i < ?e" for i
  proof (rule newPos_below_first)
    show "\<forall>d \<in> D. i \<le> d" using that fin by (meson Min_le le_less_trans less_imp_le not_le)
  qed
  have inv: "delInv D orig move0 ?e ?d1"
    unfolding delInv_def using emp below by auto
  have so: "sorted ?rest" and di: "distinct ?rest" by simp_all
  have st: "set ?rest = {x \<in> D. ?e < x}" using fin by (auto simp: le_less) (metis Min_le le_less)
  from deleteIndices_inv[OF inv eD fin z sub so di st] first l show ?thesis by simp
qed

section \<open>The result of the overlap consolidator\<close>

lemma fixIndices_length: "length (fixIndices k xs) = length xs"
  by (induction xs arbitrary: k) simp_all

lemma fixIndices_nth:
  "i < length xs \<Longrightarrow> fixIndices k xs ! i = (xs ! i)\<lparr>candidateIndex := k + i\<rparr>"
proof (induction xs arbitrary: k i)
  case Nil
  then show ?case by simp
next
  case (Cons x xs)
  then show ?case by (cases i) simp_all
qed

lemma fixIndices_stable: "indexStable (fixIndices 0 xs)"
  by (simp add: indexStable_def fixIndices_length fixIndices_nth)

lemma lookup_None_keys: "i \<notin> Mapping.keys m \<Longrightarrow> Mapping.lookup m i = None"
  by (metis Mapping.keys_is_none_rep Option.is_none_def)

lemma consolidateCandidates_result:
  "\<exists>D orig m svs'. consolidateCandidates ops svs = Inr (m, svs')
     \<and> compaction D (length svs) m
     \<and> length orig = length svs
     \<and> length svs' = length svs - card D
     \<and> (D = {} \<longrightarrow> svs' = svs \<and> Mapping.is_empty m)
     \<and> (D \<noteq> {} \<longrightarrow> indexStable svs')
     \<and> (D \<noteq> {} \<longrightarrow> (\<forall>i<length svs. i \<notin> D \<longrightarrow>
            svs' ! newPos D i = (orig ! i)\<lparr>candidateIndex := newPos D i\<rparr>))"
proof -
  let ?n = "length svs"
  from scan_result[of ops svs] obtain st where
    sc: "outerLoop ops [1..<?n]
          \<lparr>moveSVIndex = Mapping.empty, deletedSVIndex = {}, innerIndexShift = [],
           svs_of = svs\<rparr> = Inr st"
    and inv: "scanInv svs (max 1 ?n) st" by blast
  let ?D = "deletedSVIndex st"
  from inv have len: "length (svs_of st) = ?n" and D: "?D \<subseteq> {1..<max 1 ?n}"
    and keys: "Mapping.keys (moveSVIndex st) = ?D"
    and mv: "\<forall>d \<in> ?D. \<exists>t<d. t \<notin> ?D \<and> Mapping.lookup (moveSVIndex st) d = Some (newPos ?D t)"
    and un: "?D = {} \<longrightarrow> svs_of st = svs"
    by (auto simp: scanInv_def)
  have Dn: "?D \<subseteq> {1..<?n}"
  proof
    fix x assume "x \<in> ?D"
    with D have "1 \<le> x" "x < max 1 ?n" by auto
    then show "x \<in> {1..<?n}" by (cases "?n = 0") auto
  qed
  have fin: "finite ?D" using Dn by (meson finite_atLeastLessThan finite_subset)
  have z: "0 \<notin> ?D" using Dn by auto
  have sub: "?D \<subseteq> {..<length (svs_of st)}" using Dn len by auto
  show ?thesis
  proof (cases "?D = {}")
    case True
    have r: "consolidateCandidates ops svs = Inr (moveSVIndex st, svs)"
      using sc True un by (simp add: consolidateCandidates_def)
    have c: "compaction {} ?n (moveSVIndex st)"
      using keys True by (auto simp: compaction_def newPos_def lookup_None_keys)
    have e: "Mapping.is_empty (moveSVIndex st)" using keys True by (simp add: Mapping.is_empty_def)
    have "consolidateCandidates ops svs = Inr (moveSVIndex st, svs)
     \<and> compaction {} (length svs) (moveSVIndex st)
     \<and> length svs = length svs
     \<and> length svs = length svs - card ({}::nat set)
     \<and> (({}::nat set) = {} \<longrightarrow> svs = svs \<and> Mapping.is_empty (moveSVIndex st))
     \<and> (({}::nat set) \<noteq> {} \<longrightarrow> indexStable svs)
     \<and> (({}::nat set) \<noteq> {} \<longrightarrow> (\<forall>i<length svs. i \<notin> ({}::nat set) \<longrightarrow>
            svs ! newPos {} i = (svs ! i)\<lparr>candidateIndex := newPos {} i\<rparr>))"
      using r c e by simp
    then show ?thesis by (intro exI)
  next
    case False
    from deleteIndices_result[OF fin z sub False, of "moveSVIndex st"] obtain d where
      dl: "deleteIndices (sorted_list_of_set ?D @ [length (svs_of st)])
                 \<lparr>shift = 0, isLastIndex = False, lastIndex = 0, svs_d = svs_of st,
                  moveSVIndex_d = moveSVIndex st\<rparr> = Inr d"
      and di: "delInv ?D (svs_of st) (moveSVIndex st) (length (svs_of st)) d" by blast
    let ?svs' = "fixIndices 0 (take (length (svs_d d) - card ?D) (svs_d d))"
    from di have ld: "length (svs_d d) = ?n"
      and kept: "\<forall>i<?n. i \<notin> ?D \<longrightarrow> svs_d d ! newPos ?D i = svs_of st ! i"
      and dm: "\<forall>i. Mapping.lookup (moveSVIndex_d d) i =
             (if i \<notin> ?D \<and> Min ?D < i \<and> i < ?n then Some (newPos ?D i)
              else Mapping.lookup (moveSVIndex st) i)"
      using len by (auto simp: delInv_def)
    have r: "consolidateCandidates ops svs = Inr (moveSVIndex_d d, ?svs')"
      using sc False dl len by (simp add: consolidateCandidates_def)
    have subn: "?D \<subseteq> {..<?n}" using Dn by auto
    have tot: "newPos ?D ?n = ?n - card ?D" by (rule newPos_total[OF fin subn])
    have l': "length ?svs' = ?n - card ?D" using ld by (simp add: fixIndices_length)
    have kd: "Mapping.keys (moveSVIndex_d d) \<subseteq> {..<?n}"
    proof
      fix i assume "i \<in> Mapping.keys (moveSVIndex_d d)"
      then have "Mapping.lookup (moveSVIndex_d d) i \<noteq> None"
        by (simp add: Mapping.keys_is_none_rep Option.is_none_def)
      with dm[rule_format, of i] have "i < ?n \<or> Mapping.lookup (moveSVIndex st) i \<noteq> None"
        by (cases "i < ?n") simp_all
      moreover have "i \<in> ?D" if nn: "Mapping.lookup (moveSVIndex st) i \<noteq> None"
      proof (rule ccontr)
        assume "i \<notin> ?D"
        then have "i \<notin> Mapping.keys (moveSVIndex st)" using keys by simp
        from lookup_None_keys[OF this] nn show False by simp
      qed
      ultimately show "i \<in> {..<?n}" using Dn by auto
    qed
    have c: "compaction ?D ?n (moveSVIndex_d d)"
      unfolding compaction_def
    proof (intro conjI allI impI ballI)
      show "finite ?D" by (rule fin)
      show "?D \<subseteq> {1..<?n}" by (rule Dn)
      show "Mapping.keys (moveSVIndex_d d) \<subseteq> {..<?n}" by (rule kd)
    next
      fix i assume i: "i < ?n" "i \<notin> ?D"
      show "(Mapping.lookup (moveSVIndex_d d) i = None \<and> newPos ?D i = i)
            \<or> Mapping.lookup (moveSVIndex_d d) i = Some (newPos ?D i)"
      proof (cases "Min ?D < i")
        case True
        with i dm[rule_format, of i] show ?thesis by simp
      next
        case F: False
        then have "i \<le> Min ?D" by simp
        then have "\<forall>x \<in> ?D. i \<le> x" using fin by (meson Min_le le_trans)
        then have "newPos ?D i = i" by (rule newPos_below_first)
        moreover have "Mapping.lookup (moveSVIndex_d d) i = None"
          using dm[rule_format, of i] F i keys lookup_None_keys[of i "moveSVIndex st"] by simp
        ultimately show ?thesis by simp
      qed
    next
      fix x assume x: "x \<in> ?D"
      with mv obtain t where "t < x" "t \<notin> ?D" "Mapping.lookup (moveSVIndex st) x = Some (newPos ?D t)"
        by blast
      moreover have "Mapping.lookup (moveSVIndex_d d) x = Mapping.lookup (moveSVIndex st) x"
        using dm[rule_format, of x] x by simp
      ultimately show "\<exists>t<x. t \<notin> ?D \<and> Mapping.lookup (moveSVIndex_d d) x = Some (newPos ?D t)"
        by auto
    qed
    have content: "\<forall>i<?n. i \<notin> ?D \<longrightarrow>
            ?svs' ! newPos ?D i = (svs_of st ! i)\<lparr>candidateIndex := newPos ?D i\<rparr>"
    proof (intro allI impI)
      fix i assume i: "i < ?n" "i \<notin> ?D"
      have "newPos ?D i < newPos ?D ?n" using newPos_strict[OF i(2) i(1)] .
      then have p: "newPos ?D i < ?n - card ?D" using tot by simp
      then have "?svs' ! newPos ?D i = (take (?n - card ?D) (svs_d d) ! newPos ?D i)\<lparr>candidateIndex := newPos ?D i\<rparr>"
        using ld by (simp add: fixIndices_nth)
      also have "take (?n - card ?D) (svs_d d) ! newPos ?D i = svs_d d ! newPos ?D i"
        using p by simp
      also have "\<dots> = svs_of st ! i" using kept[rule_format, of i] i by simp
      finally show "?svs' ! newPos ?D i = (svs_of st ! i)\<lparr>candidateIndex := newPos ?D i\<rparr>" .
    qed
    have "consolidateCandidates ops svs = Inr (moveSVIndex_d d, ?svs')
     \<and> compaction ?D (length svs) (moveSVIndex_d d)
     \<and> length (svs_of st) = length svs
     \<and> length ?svs' = length svs - card ?D
     \<and> (?D = {} \<longrightarrow> ?svs' = svs \<and> Mapping.is_empty (moveSVIndex_d d))
     \<and> (?D \<noteq> {} \<longrightarrow> indexStable ?svs')
     \<and> (?D \<noteq> {} \<longrightarrow> (\<forall>i<length svs. i \<notin> ?D \<longrightarrow>
            ?svs' ! newPos ?D i = (svs_of st ! i)\<lparr>candidateIndex := newPos ?D i\<rparr>))"
      using r c len l' False fixIndices_stable content by blast
    then show ?thesis by (intro exI)
  qed
qed

lemma compaction_movedIndex:
  assumes c: "compaction D n m" and i: "i < n"
  shows "movedIndex m i < n - card D"
proof -
  from c have fin: "finite D" and D: "D \<subseteq> {1..<n}"
    and keep: "\<forall>i<n. i \<notin> D \<longrightarrow>
            (Mapping.lookup m i = None \<and> newPos D i = i) \<or> Mapping.lookup m i = Some (newPos D i)"
    and del: "\<forall>d \<in> D. \<exists>t<d. t \<notin> D \<and> Mapping.lookup m d = Some (newPos D t)"
    by (auto simp: compaction_def)
  have subn: "D \<subseteq> {..<n}" using D by auto
  have tot: "newPos D n = n - card D" by (rule newPos_total[OF fin subn])
  show ?thesis
  proof (cases "i \<in> D")
    case True
    with del obtain t where t: "t < i" "t \<notin> D" "Mapping.lookup m i = Some (newPos D t)" by blast
    have "newPos D t < newPos D n" using newPos_strict[OF t(2)] t(1) i by simp
    with t tot show ?thesis by (simp add: movedIndex_def)
  next
    case False
    have "newPos D i < newPos D n" using newPos_strict[OF False i] .
    with keep[rule_format, of i] i False tot show ?thesis by (auto simp: movedIndex_def)
  qed
qed

lemma moveGroups_group:
  "distinct bs \<Longrightarrow>
   getDataGroup (moveGroups m bs svData) k =
     (if k \<in> set bs
      then (getDataGroup svData k)\<lparr>pairs := map (movePair m) (pairs (getDataGroup svData k))\<rparr>
      else getDataGroup svData k)"
  by (induction bs arbitrary: svData) (auto simp: setDataGroup_def)

lemma moveLink_empty: "Mapping.is_empty m \<Longrightarrow> moveLink m sva = sva"
  by (simp add: moveLink_def Mapping.is_empty_def lookup_None_keys)

lemma movePair_empty: "Mapping.is_empty m \<Longrightarrow> movePair m pair = pair"
  by (simp add: movePair_def moveLink_empty cong: map_cong)

lemma index_moveLink: "index (moveLink m sva) = movedIndex m (index sva)"
  by (simp add: moveLink_def movedIndex_def split: option.splits)

lemma consolidateOverlap_pairs:
  assumes "consolidateCandidates ops svs = Inr (m, svs')"
  shows "\<exists>svData'. consolidateOverlap ops bamCount svData svs = Inr (svData', svs')
          \<and> (\<forall>bamIndex<bamCount. pairs (getDataGroup svData' bamIndex)
                 = map (movePair m) (pairs (getDataGroup svData bamIndex)))
          \<and> (\<forall>bamIndex\<ge>bamCount. getDataGroup svData' bamIndex = getDataGroup svData bamIndex)"
proof (cases "Mapping.is_empty m")
  case True
  then have "map (movePair m) ps = ps" for ps by (simp add: movePair_empty cong: map_cong)
  with assms True show ?thesis by (simp add: consolidateOverlap_def)
next
  case False
  with assms show ?thesis by (simp add: consolidateOverlap_def moveGroups_group)
qed

section \<open>The candidate list and the links during the assignment\<close>

lemma assignObservation_as_spec:
  "\<not> (isExcludePairType \<and> isPairType ops (obs_evtype readCand))
   \<Longrightarrow> assignObservation ops isExcludePairType readCand pair svs
       = assignObservation_spec ops readCand pair svs"
  by (auto simp: assignObservation_def assignObservation_spec_def firstIntersecting_def
      matchCandidate_find pushLink_def linkIfSpanning_def Let_def split: option.splits)

lemma linksValid_mono: "linksValid n pair \<Longrightarrow> n \<le> m \<Longrightarrow> linksValid m pair"
  by (auto simp: linksValid_def)

lemma linksValid_link:
  "linksValid n pair \<Longrightarrow> i < n \<Longrightarrow> linksValid n (linkIfSpanning ops i readCand pair)"
  by (auto simp: linksValid_def linkIfSpanning_def)

lemma indexStable_update:
  "indexStable svs \<Longrightarrow> candidateIndex v = candidateIndex (svs ! i) \<Longrightarrow> indexStable (svs[i := v])"
  by (cases "i < length svs") (auto simp: indexStable_def nth_list_update)

lemma indexStable_append:
  "indexStable svs \<Longrightarrow> indexStable (svs @ [v\<lparr>candidateIndex := length svs\<rparr>])"
  by (auto simp: indexStable_def nth_append)

lemma assignObservation_inv:
  assumes "assignObservation ops excl readCand pair svs = (pair', svs')"
  shows "length svs \<le> length svs'"
    and "linksValid (length svs) pair \<Longrightarrow> linksValid (length svs') pair'"
    and "mergeKeepsIndex ops \<Longrightarrow> indexStable svs \<Longrightarrow> indexStable svs'"
proof -
  have "length svs \<le> length svs'
        \<and> (linksValid (length svs) pair \<longrightarrow> linksValid (length svs') pair')
        \<and> (mergeKeepsIndex ops \<longrightarrow> indexStable svs \<longrightarrow> indexStable svs')"
  proof (cases "excl \<and> isPairType ops (obs_evtype readCand)")
    case True
    with assms show ?thesis by (simp add: assignObservation_def)
  next
    case False
    from assms assignObservation_as_spec[OF False]
    have sp: "assignObservation_spec ops readCand pair svs = (pair', svs')" by simp
    show ?thesis
    proof (cases "firstIntersecting ops svs readCand")
      case None
      with sp have p: "pair' = linkIfSpanning ops (length svs) readCand pair"
        and s: "svs' = svs @ [(asCandidate readCand)\<lparr>candidateIndex := length svs\<rparr>]"
        by (simp_all add: assignObservation_spec_def)
      have "linksValid (length svs') pair'" if "linksValid (length svs) pair"
        unfolding p using linksValid_link[OF linksValid_mono[OF that, of "length svs'"], of "length svs" ops readCand] s
        by simp
      with s indexStable_append show ?thesis by simp
    next
      case (Some i)
      then have i: "i < length svs" by (simp add: firstIntersecting_Some)
      from Some sp have p: "pair' = linkIfSpanning ops i readCand pair"
        and s: "svs' = svs[i := merge ops (svs ! i) (asCandidate readCand)]"
        by (simp_all add: assignObservation_spec_def)
      have "indexStable svs'" if "mergeKeepsIndex ops" "indexStable svs"
        unfolding s using that by (intro indexStable_update) (simp_all add: mergeKeepsIndex_def)
      moreover have "linksValid (length svs') pair'" if "linksValid (length svs) pair"
        unfolding p using linksValid_link[OF that i] s by simp
      ultimately show ?thesis using s by simp
    qed
  qed
  then show "length svs \<le> length svs'"
    and "linksValid (length svs) pair \<Longrightarrow> linksValid (length svs') pair'"
    and "mergeKeepsIndex ops \<Longrightarrow> indexStable svs \<Longrightarrow> indexStable svs'"
    by blast+
qed

lemma assignObservations_inv:
  assumes "assignPairObservationsToSVCandidates ops excl obs pair svs = (pair', svs')"
  shows "length svs \<le> length svs'
        \<and> (linksValid (length svs) pair \<longrightarrow> linksValid (length svs') pair')
        \<and> (mergeKeepsIndex ops \<longrightarrow> indexStable svs \<longrightarrow> indexStable svs')"
  using assms
proof (induction obs arbitrary: pair svs)
  case Nil
  then show ?case by simp
next
  case (Cons readCand obs)
  obtain p1 s1 where a: "assignObservation ops excl readCand pair svs = (p1, s1)"
    by (cases "assignObservation ops excl readCand pair svs")
  with Cons.prems have r: "assignPairObservationsToSVCandidates ops excl obs p1 s1 = (pair', svs')"
    by simp
  from Cons.IH[OF r] assignObservation_inv[OF a] show ?case by (meson le_trans)
qed

lemma assignPair_inv:
  assumes "assignPair ops scanner c bamIndex pair svs = Inr (pair', svs')"
  shows "length svs \<le> length svs' \<and> linksValid (length svs') pair'
        \<and> (mergeKeepsIndex ops \<longrightarrow> indexStable svs \<longrightarrow> indexStable svs')"
proof -
  from assms obtain excl obs where
    a: "assignPairObservationsToSVCandidates ops excl obs (pair\<lparr>svLink := []\<rparr>) svs = (pair', svs')"
    by (auto simp: assignPair_def Let_def split: option.splits)
  have "linksValid (length svs) (pair\<lparr>svLink := []\<rparr>)" by (simp add: linksValid_def)
  with assignObservations_inv[OF a] show ?thesis by blast
qed

lemma assignPairs_inv:
  assumes "assignPairs ops scanner c bamIndex ps svs = Inr (ps', svs')"
  shows "length svs \<le> length svs' \<and> (\<forall>pair \<in> set ps'. linksValid (length svs') pair)
        \<and> (mergeKeepsIndex ops \<longrightarrow> indexStable svs \<longrightarrow> indexStable svs')"
  using assms
proof (induction ps arbitrary: svs ps')
  case Nil
  then show ?case by simp
next
  case (Cons pair ps)
  from Cons.prems obtain p1 s1 rest' where
    a: "assignPair ops scanner c bamIndex pair svs = Inr (p1, s1)"
    and r: "assignPairs ops scanner c bamIndex ps s1 = Inr (rest', svs')"
    and e: "ps' = p1 # rest'"
    by (auto split: sum.splits prod.splits)
  from assignPair_inv[OF a] have a1: "length svs \<le> length s1" and a2: "linksValid (length s1) p1"
    and a3: "mergeKeepsIndex ops \<longrightarrow> indexStable svs \<longrightarrow> indexStable s1" by blast+
  from Cons.IH[OF r] have r1: "length s1 \<le> length svs'"
    and r2: "\<forall>pair \<in> set rest'. linksValid (length svs') pair"
    and r3: "mergeKeepsIndex ops \<longrightarrow> indexStable s1 \<longrightarrow> indexStable svs'" by blast+
  have "linksValid (length svs') p1" using linksValid_mono[OF a2 r1] .
  with a1 r1 r2 a3 r3 e show ?case by auto
qed

lemma assignGroups_inv:
  assumes "assignGroups ops scanner c bs svData svs = Inr (svData', svs')" and "distinct bs"
  shows "length svs \<le> length svs'
        \<and> (\<forall>k \<in> set bs. \<forall>pair \<in> set (pairs (getDataGroup svData' k)). linksValid (length svs') pair)
        \<and> (\<forall>k. k \<notin> set bs \<longrightarrow> getDataGroup svData' k = getDataGroup svData k)
        \<and> (mergeKeepsIndex ops \<longrightarrow> indexStable svs \<longrightarrow> indexStable svs')"
  using assms
proof (induction bs arbitrary: svData svs)
  case Nil
  then show ?case by simp
next
  case (Cons b bs)
  let ?g = "getDataGroup svData b"
  from Cons.prems(1) obtain ps1 s1 where
    a: "assignPairs ops scanner c b (pairs ?g) svs = Inr (ps1, s1)"
    and r: "assignGroups ops scanner c bs (setDataGroup b (?g\<lparr>pairs := ps1\<rparr>) svData) s1
            = Inr (svData', svs')"
    by (auto split: sum.splits prod.splits)
  have db: "distinct bs" and nb: "b \<notin> set bs" using Cons.prems(2) by auto
  from assignPairs_inv[OF a] have a1: "length svs \<le> length s1"
    and a2: "\<forall>pair \<in> set ps1. linksValid (length s1) pair"
    and a3: "mergeKeepsIndex ops \<longrightarrow> indexStable svs \<longrightarrow> indexStable s1" by blast+
  from Cons.IH[OF r db] have r1: "length s1 \<le> length svs'"
    and r2: "\<forall>k \<in> set bs. \<forall>pair \<in> set (pairs (getDataGroup svData' k)). linksValid (length svs') pair"
    and r3: "\<forall>k. k \<notin> set bs \<longrightarrow> getDataGroup svData' k
               = getDataGroup (setDataGroup b (?g\<lparr>pairs := ps1\<rparr>) svData) k"
    and r4: "mergeKeepsIndex ops \<longrightarrow> indexStable s1 \<longrightarrow> indexStable svs'" by blast+
  have gb: "getDataGroup svData' b = ?g\<lparr>pairs := ps1\<rparr>"
    using r3[rule_format, OF nb] by (simp add: setDataGroup_def)
  have vb: "\<forall>pair \<in> set (pairs (getDataGroup svData' b)). linksValid (length svs') pair"
    using a2 linksValid_mono[OF _ r1] gb by simp
  have oth: "\<forall>k. k \<notin> set (b # bs) \<longrightarrow> getDataGroup svData' k = getDataGroup svData k"
    using r3 by (simp add: setDataGroup_def)
  from a1 r1 vb r2 oth a3 r4 show ?case by auto
qed

lemma consolidateOverlap_result:
  "\<exists>m svs' svData' D.
      consolidateCandidates ops svs = Inr (m, svs')
    \<and> consolidateOverlap ops bamCount svData svs = Inr (svData', svs')
    \<and> compaction D (length svs) m
    \<and> length svs' = length svs - card D
    \<and> (\<forall>bamIndex<bamCount. pairs (getDataGroup svData' bamIndex)
           = map (movePair m) (pairs (getDataGroup svData bamIndex)))
    \<and> (\<forall>bamIndex\<ge>bamCount. getDataGroup svData' bamIndex = getDataGroup svData bamIndex)
    \<and> (indexStable svs \<longrightarrow> indexStable svs')"
proof -
  from consolidateCandidates_result[of ops svs] obtain D m svs' where
    r: "consolidateCandidates ops svs = Inr (m, svs')"
    and c: "compaction D (length svs) m"
    and l: "length svs' = length svs - card D"
    and e: "D = {} \<longrightarrow> svs' = svs \<and> Mapping.is_empty m"
    and s: "D \<noteq> {} \<longrightarrow> indexStable svs'"
    by blast
  from consolidateOverlap_pairs[OF r, of bamCount svData] obtain svData' where
    o: "consolidateOverlap ops bamCount svData svs = Inr (svData', svs')"
    and p: "\<forall>bamIndex<bamCount. pairs (getDataGroup svData' bamIndex)
                 = map (movePair m) (pairs (getDataGroup svData bamIndex))"
    and q: "\<forall>bamIndex\<ge>bamCount. getDataGroup svData' bamIndex = getDataGroup svData bamIndex"
    by blast
  have st: "indexStable svs \<longrightarrow> indexStable svs'"
    using e s by (cases "D = {}") auto
  from r o c l p q st show ?thesis by blast
qed

lemma movePair_valid:
  assumes "compaction D n m" and "linksValid n pair"
  shows "linksValid (n - card D) (movePair m pair)"
  using assms compaction_movedIndex[OF assms(1)]
  by (auto simp: linksValid_def movePair_def index_moveLink)

lemma getCandidatesFromData_inv:
  assumes "getCandidatesFromData ops scanner bamCount c svData svs = Inr (svData', svs')"
  shows "(\<forall>bamIndex<bamCount. \<forall>pair \<in> set (pairs (getDataGroup svData' bamIndex)).
            linksValid (length svs') pair)
       \<and> (\<forall>bamIndex\<ge>bamCount. getDataGroup svData' bamIndex = getDataGroup svData bamIndex)
       \<and> (mergeKeepsIndex ops \<longrightarrow> indexStable svs \<longrightarrow> indexStable svs')"
proof -
  from assms obtain d1 s1 where
    a: "assignGroups ops scanner c [0..<bamCount] svData svs = Inr (d1, s1)"
    and b: "consolidateOverlap ops bamCount d1 s1 = Inr (svData', svs')"
    by (auto simp: getCandidatesFromData_def split: sum.splits prod.splits)
  from assignGroups_inv[OF a] have
    a2: "\<forall>k \<in> set [0..<bamCount]. \<forall>pair \<in> set (pairs (getDataGroup d1 k)). linksValid (length s1) pair"
    and a3: "\<forall>k. k \<notin> set [0..<bamCount] \<longrightarrow> getDataGroup d1 k = getDataGroup svData k"
    and a4: "mergeKeepsIndex ops \<longrightarrow> indexStable svs \<longrightarrow> indexStable s1"
    by simp_all
  from consolidateOverlap_result[of ops s1 bamCount d1] obtain m svs2 svData2 D where
    o: "consolidateOverlap ops bamCount d1 s1 = Inr (svData2, svs2)"
    and cp: "compaction D (length s1) m"
    and l: "length svs2 = length s1 - card D"
    and p: "\<forall>bamIndex<bamCount. pairs (getDataGroup svData2 bamIndex)
           = map (movePair m) (pairs (getDataGroup d1 bamIndex))"
    and q: "\<forall>bamIndex\<ge>bamCount. getDataGroup svData2 bamIndex = getDataGroup d1 bamIndex"
    and st: "indexStable s1 \<longrightarrow> indexStable svs2"
    by blast
  from o b have e: "svData2 = svData'" "svs2 = svs'" by simp_all
  have v: "\<forall>bamIndex<bamCount. \<forall>pair \<in> set (pairs (getDataGroup svData' bamIndex)).
            linksValid (length svs') pair"
  proof (intro allI impI ballI)
    fix bamIndex pair
    assume bi: "bamIndex < bamCount" and "pair \<in> set (pairs (getDataGroup svData' bamIndex))"
    with p e obtain pair0 where p0: "pair0 \<in> set (pairs (getDataGroup d1 bamIndex))"
      and pe: "pair = movePair m pair0" by auto
    from a2 bi p0 have "linksValid (length s1) pair0" by simp
    from movePair_valid[OF cp this] pe l e show "linksValid (length svs') pair" by simp
  qed
  have oth: "\<forall>bamIndex\<ge>bamCount. getDataGroup svData' bamIndex = getDataGroup svData bamIndex"
    using q a3 e by simp
  from v oth a4 st e show ?thesis by blast
qed

lemma addSVNodeStreams_other:
  "addSVNodeStreams c scanner l r si rep bamIndex streams svData = Inr (streams', svData')
   \<Longrightarrow> length streams' = length streams
       \<and> (\<forall>k. k < bamIndex \<or> bamIndex + length streams \<le> k
             \<longrightarrow> getDataGroup svData' k = getDataGroup svData k)"
proof (induction streams arbitrary: bamIndex svData streams')
  case Nil
  then show ?case by simp
next
  case (Cons s streams)
  from Cons.prems obtain g rest' where
    b: "addSVNodeStreams c scanner l r si rep (bamIndex + 1) streams
              (setDataGroup bamIndex g svData) = Inr (rest', svData')"
    and e: "streams' = set_new_region (tid si) (begin_pos (range_gi si)) (end_pos (range_gi si)) s # rest'"
    by (auto simp: Let_def split: sum.splits prod.splits)
  from Cons.IH[OF b] e show ?case by (auto simp: setDataGroup_def)
qed

lemma addSVNodeData_other:
  assumes "addSVNodeData scanner streams c locus i j svData = Inr (streams', svData')"
  shows "length streams' = length streams"
    and "length streams \<le> k \<Longrightarrow> getDataGroup svData' k = getDataGroup svData k"
proof -
  from assms obtain l r si rep where
    "addSVNodeStreams c scanner l r si rep 0 streams
       (svData\<lparr>searchInterval := Some si\<rparr>) = Inr (streams', svData')"
    by (auto simp: addSVNodeData_def Let_def setNewSearchInterval_def)
  from addSVNodeStreams_other[OF this]
  show "length streams' = length streams"
    and "length streams \<le> k \<Longrightarrow> getDataGroup svData' k = getDataGroup svData k"
    by auto
qed

lemma findCandidateSV_inv:
  assumes "findCandidateSV ops finder c edge svData svs = Inr (finder', svData', svs')"
  shows "(\<forall>bamIndex. \<forall>pair \<in> set (pairs (getDataGroup svData' bamIndex)).
            linksValid (length svs') pair)
       \<and> (mergeKeepsIndex ops \<longrightarrow> indexStable svs')"
proof (cases "edgeBelowMin finder edge")
  case True
  with assms show ?thesis
    by (auto simp: findCandidateSV_def edgeBelowMin_def Let_def clear_def emptyGroup_def
        indexStable_def)
next
  case False
  let ?locus = "getLocus (getSet finder) (locusIndex edge)"
  let ?n = "length (bamStreams finder)"
  from assms False obtain st1 d1 st2 d2 where
    a: "addSVNodeData (readScanner finder) (bamStreams finder) c ?locus
          (nodeIndex1 edge) (nodeIndex2 edge) (clear svData) = Inr (st1, d1)"
    and b: "(if nodeIndex1 edge \<noteq> nodeIndex2 edge
             then addSVNodeData (readScanner finder) st1 c ?locus (nodeIndex2 edge) (nodeIndex1 edge) d1
             else Inr (st1, setSkipped d1)) = Inr (st2, d2)"
    and g: "getCandidatesFromData ops (readScanner finder) ?n c d2 [] = Inr (svData', svs')"
    by (auto simp: findCandidateSV_def edgeBelowMin_def Let_def split: sum.splits prod.splits)
  have e1: "pairs (getDataGroup d1 k) = []" if "?n \<le> k" for k
    using addSVNodeData_other(2)[OF a that] by (simp add: clear_def emptyGroup_def)
  have l1: "length st1 = ?n" using addSVNodeData_other(1)[OF a] .
  have e2: "pairs (getDataGroup d2 k) = []" if "?n \<le> k" for k
  proof (cases "nodeIndex1 edge \<noteq> nodeIndex2 edge")
    case True
    with b have "addSVNodeData (readScanner finder) st1 c ?locus (nodeIndex2 edge) (nodeIndex1 edge) d1
                  = Inr (st2, d2)" by simp
    from addSVNodeData_other(2)[OF this, of k] that l1 e1[OF that] show ?thesis by simp
  next
    case False
    with b e1[OF that] show ?thesis by (auto simp: setSkipped_def)
  qed
  from getCandidatesFromData_inv[OF g] have
    v: "\<forall>bamIndex<?n. \<forall>pair \<in> set (pairs (getDataGroup svData' bamIndex)).
            linksValid (length svs') pair"
    and o: "\<forall>bamIndex\<ge>?n. getDataGroup svData' bamIndex = getDataGroup d2 bamIndex"
    and s: "mergeKeepsIndex ops \<longrightarrow> indexStable [] \<longrightarrow> indexStable svs'"
    by blast+
  have "\<forall>pair \<in> set (pairs (getDataGroup svData' bamIndex)). linksValid (length svs') pair"
    for bamIndex
  proof (cases "bamIndex < ?n")
    case True
    with v show ?thesis by simp
  next
    case False
    then have "?n \<le> bamIndex" by simp
    with o e2 show ?thesis by simp
  qed
  moreover have "indexStable []" by (simp add: indexStable_def)
  ultimately show ?thesis using s by blast
qed

section \<open>The consolidation scenario\<close>

lemma candidate0_intersect:
  "isIntersect intervalOps (candidate0 b e i) (candidate0 b' e' j) \<longleftrightarrow> b < e' \<and> b' < e"
  by (simp add: intervalOps_def isIntersect_sv_def isIntersect_bp_def isIntersect_gi_def
      is_range_intersect_def candidate0_def breakend0_def)

lemma candidate0_merge:
  "merge intervalOps (candidate0 b e i) (candidate0 b' e' j) = candidate0 (min b b') (max e e') i"
  by (simp add: intervalOps_def merge_sv_def merge_bp_def merge_range_def
      candidate0_def breakend0_def)

lemma candidate0_index: "(candidate0 b e i)\<lparr>candidateIndex := j\<rparr> = candidate0 b e j"
  by (simp add: candidate0_def)

lemma consolidateCandidates_example:
  "consolidateCandidates intervalOps candidates3
   = Inr (Mapping.update 2 1 (Mapping.update 1 0 Mapping.empty),
          [candidate0 100 200 0, candidate0 500 600 1])"
  by (simp add: consolidateCandidates_def candidates3_def Let_def upt_conv_Cons
      candidate0_intersect candidate0_merge candidate0_index deleteIndex_def numeral_2_eq_2
      numeral_3_eq_3)

lemma moveLink_example:
  "moveLink (Mapping.update 2 1 (Mapping.update 1 0 Mapping.empty))
   = (\<lambda>sva. sva\<lparr>index := (if index sva = 1 then 0 else if index sva = 2 then 1 else index sva)\<rparr>)"
  by (rule ext) (simp add: moveLink_def Mapping.lookup_update' Mapping.lookup_empty)

lemma consolidateOverlap_example:
  "\<exists>svData'. consolidateOverlap intervalOps bamCount svData candidates3
       = Inr (svData', [candidate0 100 200 0, candidate0 500 600 1])
     \<and> (\<forall>bamIndex<bamCount. pairs (getDataGroup svData' bamIndex)
           = map (\<lambda>pair. pair\<lparr>svLink := map (\<lambda>sva. sva\<lparr>index :=
                    (if index sva = 1 then 0 else if index sva = 2 then 1 else index sva)\<rparr>)
                    (svLink pair)\<rparr>)
               (pairs (getDataGroup svData bamIndex)))"
proof -
  from consolidateOverlap_pairs[OF consolidateCandidates_example, of bamCount svData]
  obtain svData' where
    o: "consolidateOverlap intervalOps bamCount svData candidates3
          = Inr (svData', [candidate0 100 200 0, candidate0 500 600 1])"
    and p: "\<forall>bamIndex<bamCount. pairs (getDataGroup svData' bamIndex)
                 = map (movePair (Mapping.update 2 1 (Mapping.update 1 0 Mapping.empty)))
                     (pairs (getDataGroup svData bamIndex))"
    by blast
  have m: "movePair (Mapping.update 2 1 (Mapping.update 1 0 Mapping.empty))
           = (\<lambda>pair. pair\<lparr>svLink := map (\<lambda>sva. sva\<lparr>index :=
                    (if index sva = 1 then 0 else if index sva = 2 then 1 else index sva)\<rparr>)
                    (svLink pair)\<rparr>)"
    by (rule ext) (simp only: movePair_def moveLink_example)
  from o p show ?thesis unfolding m by blast
qed

lemma svDataLinked_group: "pairs (getDataGroup svDataLinked k) = [pairLinked]"
  by (simp add: svDataLinked_def)

text \<open>
  Claim C3. The candidates 0, 1 and 2 have the first breakend intervals from 100 to
  150, from 140 to 200 and from 500 to 600, and all the second breakend interval from
  100 to 150: candidate 1 intersects candidate 0, candidate 2 neither. After
  \<^verbatim>\<open>consolidateOverlap\<close> the list has two candidates; in every group every link to
  index 1 points to index 0 and every link to index 2 to index 1, the other links as
  before; the first breakend interval of candidate 0 is the union from 100 to 200.
\<close>

theorem consolidateOverlap_three_candidates:
  "isIntersect intervalOps (candidates3 ! 0) (candidates3 ! 1)
   \<and> \<not> isIntersect intervalOps (candidates3 ! 0) (candidates3 ! 2)
   \<and> \<not> isIntersect intervalOps (candidates3 ! 1) (candidates3 ! 2)
   \<and> (\<exists>svData'. consolidateOverlap intervalOps bamCount svData candidates3
         = Inr (svData', [candidate0 100 200 0, candidate0 500 600 1])
       \<and> (\<forall>bamIndex<bamCount. pairs (getDataGroup svData' bamIndex)
             = map (\<lambda>pair. pair\<lparr>svLink := map (\<lambda>sva. sva\<lparr>index :=
                      (if index sva = 1 then 0 else if index sva = 2 then 1 else index sva)\<rparr>)
                      (svLink pair)\<rparr>)
                 (pairs (getDataGroup svData bamIndex))))
   \<and> range_gi (interval (bp1 (candidate0 100 200 0))) = \<lparr>begin_pos = 100, end_pos = 200\<rparr>
   \<and> range_gi (interval (bp2 (candidate0 100 200 0))) = \<lparr>begin_pos = 100, end_pos = 150\<rparr>"
proof -
  have a: "isIntersect intervalOps (candidates3 ! 0) (candidates3 ! 1)"
    and b: "\<not> isIntersect intervalOps (candidates3 ! 0) (candidates3 ! 2)"
    and c: "\<not> isIntersect intervalOps (candidates3 ! 1) (candidates3 ! 2)"
    by (simp_all add: candidates3_def candidate0_intersect)
  have d: "range_gi (interval (bp1 (candidate0 100 200 0))) = \<lparr>begin_pos = 100, end_pos = 200\<rparr>"
    and e: "range_gi (interval (bp2 (candidate0 100 200 0))) = \<lparr>begin_pos = 100, end_pos = 150\<rparr>"
    by (simp_all add: candidate0_def breakend0_def)
  from a b c d e consolidateOverlap_example[of bamCount svData] show ?thesis by blast
qed

theorem consolidateOverlap_three_candidates_witness:
  "\<exists>svData'. consolidateOverlap intervalOps 1 svDataLinked candidates3
         = Inr (svData', [candidate0 100 200 0, candidate0 500 600 1])
       \<and> pairs (getDataGroup svData' 0)
           = [pairLinked\<lparr>svLink := [\<lparr>index = 0, evtype = 0\<rparr>, \<lparr>index = 1, evtype = 0\<rparr>,
                                \<lparr>index = 0, evtype = 1\<rparr>]\<rparr>]"
proof -
  from consolidateOverlap_three_candidates[of 1 svDataLinked] obtain svData' where
    o: "consolidateOverlap intervalOps 1 svDataLinked candidates3
         = Inr (svData', [candidate0 100 200 0, candidate0 500 600 1])"
    and p: "\<forall>bamIndex<1. pairs (getDataGroup svData' bamIndex)
             = map (\<lambda>pair. pair\<lparr>svLink := map (\<lambda>sva. sva\<lparr>index :=
                      (if index sva = 1 then 0 else if index sva = 2 then 1 else index sva)\<rparr>)
                      (svLink pair)\<rparr>)
                 (pairs (getDataGroup svDataLinked bamIndex))"
    by blast
  from p have "pairs (getDataGroup svData' 0)
           = [pairLinked\<lparr>svLink := [\<lparr>index = 0, evtype = 0\<rparr>, \<lparr>index = 1, evtype = 0\<rparr>,
                                \<lparr>index = 0, evtype = 1\<rparr>]\<rparr>]"
    by (simp add: svDataLinked_group) (simp add: pairLinked_def)
  with o show ?thesis by blast
qed

section \<open>The merge targets of the scan\<close>

lemma innerLoop_find:
  assumes "\<forall>i \<in> set is. i < length (innerIndexShift st)
             \<and> (i \<notin> deletedSVIndex st \<longrightarrow> innerIndexShift st ! i \<le> i)"
  shows "innerLoop ops k is st =
           Inr (case List.find (\<lambda>i. i \<notin> deletedSVIndex st
                          \<and> isIntersect ops (svs_of st ! i) (svs_of st ! k)) is of
                  None \<Rightarrow> st
                | Some i \<Rightarrow>
                    st\<lparr>svs_of := (svs_of st)[i := merge ops (svs_of st ! i) (svs_of st ! k)],
                       moveSVIndex := Mapping.update k (i - innerIndexShift st ! i) (moveSVIndex st),
                       deletedSVIndex := insert k (deletedSVIndex st)\<rparr>)"
  using assms
proof (induction "is")
  case Nil
  then show ?case by simp
next
  case (Cons i "is")
  then show ?case by (auto simp: Let_def)
qed

lemma pushed_shift:
  assumes inv: "scanInv svs0 k st" and k1: "1 \<le> k"
  shows "\<forall>j<k. (innerIndexShift st @
            [(if k \<le> 1 then 0 else innerIndexShift st ! (k - 2))
             + (if k - 1 \<in> deletedSVIndex st then 1 else 0)]) ! j
          = card {d \<in> deletedSVIndex st. d \<le> j}"
proof -
  let ?D = "deletedSVIndex st"
  let ?prev = "if k \<le> 1 then 0 else innerIndexShift st ! (k - 2)"
  from inv have D: "?D \<subseteq> {1..<k}"
    and ls: "length (innerIndexShift st) = k - 1"
    and sh: "\<forall>j<k - 1. innerIndexShift st ! j = card {d \<in> ?D. d \<le> j}"
    by (auto simp: scanInv_def)
  have fin: "finite ?D" using D by (meson finite_atLeastLessThan finite_subset)
  have last: "?prev + (if k - 1 \<in> ?D then 1 else 0) = card {d \<in> ?D. d \<le> k - 1}"
  proof (cases "k \<le> 1")
    case True
    then have "?D = {}" using D by auto
    with True show ?thesis by simp
  next
    case False
    then have p: "?prev = card {d \<in> ?D. d \<le> k - 2}" using sh by simp
    have s: "{d \<in> ?D. d \<le> k - 1} = {d \<in> ?D. d \<le> k - 2} \<union> (if k - 1 \<in> ?D then {k - 1} else {})"
      using False by (auto simp: le_less)
    have f2: "finite {d \<in> ?D. d \<le> k - 2}" using fin by simp
    have dis: "k - 1 \<notin> {d \<in> ?D. d \<le> k - 2}" using False by auto
    show ?thesis
    proof (cases "k - 1 \<in> ?D")
      case True
      with s have "{d \<in> ?D. d \<le> k - 1} = insert (k - 1) {d \<in> ?D. d \<le> k - 2}" by auto
      with f2 dis p True show ?thesis by simp
    next
      case False
      with s p show ?thesis by simp
    qed
  qed
  show ?thesis
  proof (intro allI impI)
    fix j assume j: "j < k"
    show "(innerIndexShift st @ [?prev + (if k - 1 \<in> ?D then 1 else 0)]) ! j
            = card {d \<in> ?D. d \<le> j}"
    proof (cases "j < k - 1")
      case True
      with sh ls show ?thesis by (simp add: nth_append)
    next
      case False
      with j have "j = k - 1" by simp
      with last ls show ?thesis by (simp add: nth_append)
    qed
  qed
qed

lemma outer_step_exact:
  assumes inv: "scanInv svs0 k st" and k1: "1 \<le> k"
  shows "\<exists>st'. outerLoop ops [k] st = Inr st' \<and> scanInv svs0 (Suc k) st'
     \<and> (case List.find (\<lambda>i. i \<notin> deletedSVIndex st
                          \<and> isIntersect ops (svs_of st ! i) (svs_of st ! k)) [0..<k] of
          None \<Rightarrow> deletedSVIndex st' = deletedSVIndex st \<and> moveSVIndex st' = moveSVIndex st
                 \<and> svs_of st' = svs_of st
        | Some t \<Rightarrow> t < k \<and> t \<notin> deletedSVIndex st
                 \<and> deletedSVIndex st' = insert k (deletedSVIndex st)
                 \<and> moveSVIndex st' = Mapping.update k (newPos (insert k (deletedSVIndex st)) t)
                                        (moveSVIndex st)
                 \<and> svs_of st' = (svs_of st)[t := merge ops (svs_of st ! t) (svs_of st ! k)])"
proof -
  let ?D = "deletedSVIndex st"
  let ?prev = "if k \<le> 1 then 0 else innerIndexShift st ! (k - 2)"
  let ?sh1 = "innerIndexShift st @ [?prev + (if k - 1 \<in> ?D then 1 else 0)]"
  let ?st1 = "st\<lparr>innerIndexShift := ?sh1\<rparr>"
  let ?f = "List.find (\<lambda>i. i \<notin> ?D \<and> isIntersect ops (svs_of st ! i) (svs_of st ! k)) [0..<k]"
  from inv have D: "?D \<subseteq> {1..<k}" and ls: "length (innerIndexShift st) = k - 1"
    by (auto simp: scanInv_def)
  have z: "0 \<notin> ?D" using D by auto
  have sh1: "\<forall>j<k. ?sh1 ! j = card {d \<in> ?D. d \<le> j}" by (rule pushed_shift[OF inv k1])
  have ls1: "length ?sh1 = k" using ls k1 by simp
  have pre: "\<forall>i \<in> set [0..<k]. i < length (innerIndexShift ?st1)
             \<and> (i \<notin> deletedSVIndex ?st1 \<longrightarrow> innerIndexShift ?st1 ! i \<le> i)"
    using ls1 sh1 card_below_le[OF z] by auto
  from outer_step[OF inv k1, of ops "[]"] obtain st' where
    o: "outerLoop ops [k] st = Inr st'" and i': "scanInv svs0 (Suc k) st'" by auto
  have e: "outerLoop ops [k] st =
        Inr (case ?f of
               None \<Rightarrow> ?st1
             | Some i \<Rightarrow>
                 ?st1\<lparr>svs_of := (svs_of st)[i := merge ops (svs_of st ! i) (svs_of st ! k)],
                       moveSVIndex := Mapping.update k (i - ?sh1 ! i) (moveSVIndex st),
                       deletedSVIndex := insert k ?D\<rparr>)"
    using innerLoop_find[OF pre, of ops k] by (simp add: Let_def cong: option.case_cong)
  show ?thesis
  proof (cases ?f)
    case None
    with e o have "st' = ?st1" by simp
    with o i' None show ?thesis by simp
  next
    case (Some t)
    then have tk: "t < k" and tD: "t \<notin> ?D" by (auto simp: find_Some_iff)
    have tgt: "t - ?sh1 ! t = newPos (insert k ?D) t"
      using sh1 tk tD newPos_le_eq[of t ?D] newPos_insert_above[of t k ?D] by simp
    from e o Some have "st' = ?st1\<lparr>svs_of := (svs_of st)[t := merge ops (svs_of st ! t) (svs_of st ! k)],
                       moveSVIndex := Mapping.update k (t - ?sh1 ! t) (moveSVIndex st),
                       deletedSVIndex := insert k ?D\<rparr>" by simp
    with o i' Some tk tD tgt show ?thesis by simp
  qed
qed

lemma outerLoop_append:
  "outerLoop ops (xs @ ys) st =
     (case outerLoop ops xs st of Inl e \<Rightarrow> Inl e | Inr st' \<Rightarrow> outerLoop ops ys st')"
  by (induction xs arbitrary: st) (auto simp: Let_def split: sum.splits)

lemma scanBefore_Suc:
  assumes "1 \<le> k"
  shows "scanBefore ops svs (Suc k) =
           (case scanBefore ops svs k of Inl e \<Rightarrow> Inl e | Inr st \<Rightarrow> outerLoop ops [k] st)"
proof -
  have "[1..<Suc k] = [1..<k] @ [k]" using assms by simp
  then show ?thesis unfolding scanBefore_def by (simp only: outerLoop_append)
qed

lemma movedToTarget_later:
  assumes m: "movedToTarget ops svs D mv j" and jk: "j < k"
    and D': "D' = D \<or> D' = insert k D"
    and mv': "Mapping.lookup mv' j = Mapping.lookup mv j"
  shows "movedToTarget ops svs D' mv' j"
proof (cases "mergeTarget ops svs j")
  case None
  with m jk D' show ?thesis by (auto simp: movedToTarget_def)
next
  case (Some t)
  with m have a: "j \<in> D" "t < j" "t \<notin> D" "Mapping.lookup mv j = Some (newPos D t)"
    by (simp_all add: movedToTarget_def)
  have tk: "t < k" using a(2) jk by simp
  have "newPos D' t = newPos D t" using D' newPos_insert_above[OF tk] by auto
  moreover have "t \<notin> D'" using D' a(3) tk by auto
  moreover have "j \<in> D'" using D' a(1) by auto
  ultimately show ?thesis using Some a mv' by (simp add: movedToTarget_def)
qed

lemma scan_targets:
  assumes "1 \<le> k"
  shows "\<exists>st. scanBefore ops svs k = Inr st \<and> scanInv svs k st
          \<and> (\<forall>j. 1 \<le> j \<and> j < k \<longrightarrow> movedToTarget ops svs (deletedSVIndex st) (moveSVIndex st) j)"
  using assms
proof (induction k rule: nat_induct_at_least)
  case base
  show ?case by (simp add: scanBefore_def scanInv_def)
next
  case (Suc k)
  then obtain st where sb: "scanBefore ops svs k = Inr st" and inv: "scanInv svs k st"
    and tg: "\<forall>j. 1 \<le> j \<and> j < k \<longrightarrow> movedToTarget ops svs (deletedSVIndex st) (moveSVIndex st) j"
    by blast
  let ?D = "deletedSVIndex st"
  let ?f = "List.find (\<lambda>i. i \<notin> ?D \<and> isIntersect ops (svs_of st ! i) (svs_of st ! k)) [0..<k]"
  from outer_step_exact[OF inv Suc.hyps, of ops] obtain st' where
    o: "outerLoop ops [k] st = Inr st'" and inv': "scanInv svs (Suc k) st'"
    and c: "case ?f of
          None \<Rightarrow> deletedSVIndex st' = ?D \<and> moveSVIndex st' = moveSVIndex st
                 \<and> svs_of st' = svs_of st
        | Some t \<Rightarrow> t < k \<and> t \<notin> ?D
                 \<and> deletedSVIndex st' = insert k ?D
                 \<and> moveSVIndex st' = Mapping.update k (newPos (insert k ?D) t) (moveSVIndex st)
                 \<and> svs_of st' = (svs_of st)[t := merge ops (svs_of st ! t) (svs_of st ! k)]"
    by blast
  have sb': "scanBefore ops svs (Suc k) = Inr st'"
    using scanBefore_Suc[OF Suc.hyps, of ops svs] sb o by simp
  have mt: "mergeTarget ops svs k = ?f" using sb by (simp add: mergeTarget_def)
  from inv have Dk: "?D \<subseteq> {1..<k}" by (simp add: scanInv_def)
  have kD: "k \<notin> ?D" using Dk by auto
  have D': "deletedSVIndex st' = ?D \<or> deletedSVIndex st' = insert k ?D"
    using c by (cases ?f) auto
  have lk: "Mapping.lookup (moveSVIndex st') j = Mapping.lookup (moveSVIndex st) j" if "j < k" for j
    using c that by (cases ?f) (auto simp: Mapping.lookup_update')
  have "movedToTarget ops svs (deletedSVIndex st') (moveSVIndex st') j" if j: "1 \<le> j \<and> j < Suc k" for j
  proof (cases "j < k")
    case True
    with tg j have "movedToTarget ops svs ?D (moveSVIndex st) j" by simp
    from movedToTarget_later[OF this True D' lk[OF True]] show ?thesis .
  next
    case False
    with j have jk: "j = k" by simp
    show ?thesis
    proof (cases ?f)
      case None
      with c kD mt jk show ?thesis by (simp add: movedToTarget_def)
    next
      case (Some t)
      with c kD mt jk show ?thesis by (simp add: movedToTarget_def Mapping.lookup_update')
    qed
  qed
  with sb' inv' show ?case by blast
qed

lemma scan_step_merge:
  assumes k1: "1 \<le> k" and mt: "mergeTarget ops svs k = Some t"
  shows "\<exists>stk stk'. scanBefore ops svs k = Inr stk \<and> scanBefore ops svs (Suc k) = Inr stk'
          \<and> t < k \<and> t \<notin> deletedSVIndex stk
          \<and> isIntersect ops (svs_of stk ! t) (svs_of stk ! k)
          \<and> (\<forall>i<t. i \<in> deletedSVIndex stk \<or> \<not> isIntersect ops (svs_of stk ! i) (svs_of stk ! k))
          \<and> svs_of stk' = (svs_of stk)[t := merge ops (svs_of stk ! t) (svs_of stk ! k)]
          \<and> deletedSVIndex stk' = insert k (deletedSVIndex stk)"
proof -
  from scan_targets[OF k1, of ops svs] obtain st where
    sb: "scanBefore ops svs k = Inr st" and inv: "scanInv svs k st" by blast
  let ?f = "List.find (\<lambda>i. i \<notin> deletedSVIndex st
                 \<and> isIntersect ops (svs_of st ! i) (svs_of st ! k)) [0..<k]"
  have f: "?f = Some t" using mt sb by (simp add: mergeTarget_def)
  from outer_step_exact[OF inv k1, of ops] f obtain st' where
    o: "outerLoop ops [k] st = Inr st'"
    and c: "t < k \<and> t \<notin> deletedSVIndex st
                 \<and> deletedSVIndex st' = insert k (deletedSVIndex st)
                 \<and> svs_of st' = (svs_of st)[t := merge ops (svs_of st ! t) (svs_of st ! k)]"
    by auto
  have sb': "scanBefore ops svs (Suc k) = Inr st'"
    using scanBefore_Suc[OF k1, of ops svs] sb o by simp
  from f have p: "isIntersect ops (svs_of st ! t) (svs_of st ! k)"
    and q: "\<forall>i<t. i \<in> deletedSVIndex st \<or> \<not> isIntersect ops (svs_of st ! i) (svs_of st ! k)"
    by (auto simp: find_Some_iff)
  from sb sb' c p q show ?thesis by blast
qed

lemma consolidateCandidates_scan:
  "\<exists>st m svs'. scanBefore ops svs (length svs) = Inr st
     \<and> consolidateCandidates ops svs = Inr (m, svs')
     \<and> compaction (deletedSVIndex st) (length svs) m
     \<and> length (svs_of st) = length svs
     \<and> length svs' = length svs - card (deletedSVIndex st)
     \<and> (deletedSVIndex st \<noteq> {} \<longrightarrow> (\<forall>i<length svs. i \<notin> deletedSVIndex st \<longrightarrow>
            svs' ! newPos (deletedSVIndex st) i
              = (svs_of st ! i)\<lparr>candidateIndex := newPos (deletedSVIndex st) i\<rparr>))
     \<and> (\<forall>x \<in> deletedSVIndex st. Mapping.lookup m x = Mapping.lookup (moveSVIndex st) x)"
proof -
  let ?n = "length svs"
  from scan_result[of ops svs] obtain st where
    sc: "outerLoop ops [1..<?n]
          \<lparr>moveSVIndex = Mapping.empty, deletedSVIndex = {}, innerIndexShift = [],
           svs_of = svs\<rparr> = Inr st"
    and inv: "scanInv svs (max 1 ?n) st" by blast
  let ?D = "deletedSVIndex st"
  from inv have len: "length (svs_of st) = ?n" and D: "?D \<subseteq> {1..<max 1 ?n}"
    and keys: "Mapping.keys (moveSVIndex st) = ?D"
    and mv: "\<forall>d \<in> ?D. \<exists>t<d. t \<notin> ?D \<and> Mapping.lookup (moveSVIndex st) d = Some (newPos ?D t)"
    and un: "?D = {} \<longrightarrow> svs_of st = svs"
    by (auto simp: scanInv_def)
  have Dn: "?D \<subseteq> {1..<?n}"
  proof
    fix x assume "x \<in> ?D"
    with D have "1 \<le> x" "x < max 1 ?n" by auto
    then show "x \<in> {1..<?n}" by (cases "?n = 0") auto
  qed
  have fin: "finite ?D" using Dn by (meson finite_atLeastLessThan finite_subset)
  have z: "0 \<notin> ?D" using Dn by auto
  have sub: "?D \<subseteq> {..<length (svs_of st)}" using Dn len by auto
  show ?thesis
  proof (cases "?D = {}")
    case True
    have r: "consolidateCandidates ops svs = Inr (moveSVIndex st, svs)"
      using sc True un by (simp add: consolidateCandidates_def)
    have c: "compaction {} ?n (moveSVIndex st)"
      using keys True by (auto simp: compaction_def newPos_def lookup_None_keys)
    have e: "Mapping.is_empty (moveSVIndex st)" using keys True by (simp add: Mapping.is_empty_def)
    have sb: "scanBefore ops svs ?n = Inr st" using sc by (simp add: scanBefore_def)
    have c': "compaction ?D ?n (moveSVIndex st)" using c True by simp
    have "scanBefore ops svs ?n = Inr st
     \<and> consolidateCandidates ops svs = Inr (moveSVIndex st, svs)
     \<and> compaction ?D ?n (moveSVIndex st)
     \<and> length (svs_of st) = ?n
     \<and> length svs = ?n - card ?D
     \<and> (?D \<noteq> {} \<longrightarrow> (\<forall>i<?n. i \<notin> ?D \<longrightarrow>
            svs ! newPos ?D i = (svs_of st ! i)\<lparr>candidateIndex := newPos ?D i\<rparr>))
     \<and> (\<forall>x \<in> ?D. Mapping.lookup (moveSVIndex st) x = Mapping.lookup (moveSVIndex st) x)"
      using sb r c' len True by simp
    then show ?thesis by blast
  next
    case False
    from deleteIndices_result[OF fin z sub False, of "moveSVIndex st"] obtain d where
      dl: "deleteIndices (sorted_list_of_set ?D @ [length (svs_of st)])
                 \<lparr>shift = 0, isLastIndex = False, lastIndex = 0, svs_d = svs_of st,
                  moveSVIndex_d = moveSVIndex st\<rparr> = Inr d"
      and di: "delInv ?D (svs_of st) (moveSVIndex st) (length (svs_of st)) d" by blast
    let ?svs' = "fixIndices 0 (take (length (svs_d d) - card ?D) (svs_d d))"
    from di have ld: "length (svs_d d) = ?n"
      and kept: "\<forall>i<?n. i \<notin> ?D \<longrightarrow> svs_d d ! newPos ?D i = svs_of st ! i"
      and dm: "\<forall>i. Mapping.lookup (moveSVIndex_d d) i =
             (if i \<notin> ?D \<and> Min ?D < i \<and> i < ?n then Some (newPos ?D i)
              else Mapping.lookup (moveSVIndex st) i)"
      using len by (auto simp: delInv_def)
    have r: "consolidateCandidates ops svs = Inr (moveSVIndex_d d, ?svs')"
      using sc False dl len by (simp add: consolidateCandidates_def)
    have subn: "?D \<subseteq> {..<?n}" using Dn by auto
    have tot: "newPos ?D ?n = ?n - card ?D" by (rule newPos_total[OF fin subn])
    have l': "length ?svs' = ?n - card ?D" using ld by (simp add: fixIndices_length)
    have kd: "Mapping.keys (moveSVIndex_d d) \<subseteq> {..<?n}"
    proof
      fix i assume "i \<in> Mapping.keys (moveSVIndex_d d)"
      then have "Mapping.lookup (moveSVIndex_d d) i \<noteq> None"
        by (simp add: Mapping.keys_is_none_rep Option.is_none_def)
      with dm[rule_format, of i] have "i < ?n \<or> Mapping.lookup (moveSVIndex st) i \<noteq> None"
        by (cases "i < ?n") simp_all
      moreover have "i \<in> ?D" if nn: "Mapping.lookup (moveSVIndex st) i \<noteq> None"
      proof (rule ccontr)
        assume "i \<notin> ?D"
        then have "i \<notin> Mapping.keys (moveSVIndex st)" using keys by simp
        from lookup_None_keys[OF this] nn show False by simp
      qed
      ultimately show "i \<in> {..<?n}" using Dn by auto
    qed
    have c: "compaction ?D ?n (moveSVIndex_d d)"
      unfolding compaction_def
    proof (intro conjI allI impI ballI)
      show "finite ?D" by (rule fin)
      show "?D \<subseteq> {1..<?n}" by (rule Dn)
      show "Mapping.keys (moveSVIndex_d d) \<subseteq> {..<?n}" by (rule kd)
    next
      fix i assume i: "i < ?n" "i \<notin> ?D"
      show "(Mapping.lookup (moveSVIndex_d d) i = None \<and> newPos ?D i = i)
            \<or> Mapping.lookup (moveSVIndex_d d) i = Some (newPos ?D i)"
      proof (cases "Min ?D < i")
        case True
        with i dm[rule_format, of i] show ?thesis by simp
      next
        case F: False
        then have "i \<le> Min ?D" by simp
        then have "\<forall>x \<in> ?D. i \<le> x" using fin by (meson Min_le le_trans)
        then have "newPos ?D i = i" by (rule newPos_below_first)
        moreover have "Mapping.lookup (moveSVIndex_d d) i = None"
          using dm[rule_format, of i] F i keys lookup_None_keys[of i "moveSVIndex st"] by simp
        ultimately show ?thesis by simp
      qed
    next
      fix x assume x: "x \<in> ?D"
      with mv obtain t where "t < x" "t \<notin> ?D" "Mapping.lookup (moveSVIndex st) x = Some (newPos ?D t)"
        by blast
      moreover have "Mapping.lookup (moveSVIndex_d d) x = Mapping.lookup (moveSVIndex st) x"
        using dm[rule_format, of x] x by simp
      ultimately show "\<exists>t<x. t \<notin> ?D \<and> Mapping.lookup (moveSVIndex_d d) x = Some (newPos ?D t)"
        by auto
    qed
    have content: "\<forall>i<?n. i \<notin> ?D \<longrightarrow>
            ?svs' ! newPos ?D i = (svs_of st ! i)\<lparr>candidateIndex := newPos ?D i\<rparr>"
    proof (intro allI impI)
      fix i assume i: "i < ?n" "i \<notin> ?D"
      have "newPos ?D i < newPos ?D ?n" using newPos_strict[OF i(2) i(1)] .
      then have p: "newPos ?D i < ?n - card ?D" using tot by simp
      then have "?svs' ! newPos ?D i = (take (?n - card ?D) (svs_d d) ! newPos ?D i)\<lparr>candidateIndex := newPos ?D i\<rparr>"
        using ld by (simp add: fixIndices_nth)
      also have "take (?n - card ?D) (svs_d d) ! newPos ?D i = svs_d d ! newPos ?D i"
        using p by simp
      also have "\<dots> = svs_of st ! i" using kept[rule_format, of i] i by simp
      finally show "?svs' ! newPos ?D i = (svs_of st ! i)\<lparr>candidateIndex := newPos ?D i\<rparr>" .
    qed
    have sb: "scanBefore ops svs ?n = Inr st" using sc by (simp add: scanBefore_def)
    have same: "\<forall>x \<in> ?D. Mapping.lookup (moveSVIndex_d d) x = Mapping.lookup (moveSVIndex st) x"
    proof
      fix x assume "x \<in> ?D"
      with dm[rule_format, of x] show "Mapping.lookup (moveSVIndex_d d) x = Mapping.lookup (moveSVIndex st) x"
        by simp
    qed
    have "scanBefore ops svs ?n = Inr st
     \<and> consolidateCandidates ops svs = Inr (moveSVIndex_d d, ?svs')
     \<and> compaction ?D ?n (moveSVIndex_d d)
     \<and> length (svs_of st) = ?n
     \<and> length ?svs' = ?n - card ?D
     \<and> (?D \<noteq> {} \<longrightarrow> (\<forall>i<?n. i \<notin> ?D \<longrightarrow>
            ?svs' ! newPos ?D i = (svs_of st ! i)\<lparr>candidateIndex := newPos ?D i\<rparr>))
     \<and> (\<forall>x \<in> ?D. Mapping.lookup (moveSVIndex_d d) x = Mapping.lookup (moveSVIndex st) x)"
      using sb r c len l' content same by blast
    then show ?thesis by blast
  qed
qed

lemma scanBefore_max: "scanBefore ops svs (max 1 n) = scanBefore ops svs n"
proof -
  have "[1..<max 1 n] = [1..<n]" by (cases "n = 0") (simp_all add: max_def)
  then show ?thesis by (simp add: scanBefore_def)
qed

lemma consolidateCandidates_targets:
  "\<exists>st m svs'. scanBefore ops svs (length svs) = Inr st
     \<and> consolidateCandidates ops svs = Inr (m, svs')
     \<and> compaction (deletedSVIndex st) (length svs) m
     \<and> length svs' = length svs - card (deletedSVIndex st)
     \<and> (\<forall>k. 1 \<le> k \<and> k < length svs \<longrightarrow> movedToTarget ops svs (deletedSVIndex st) m k)
     \<and> (\<forall>k t. 1 \<le> k \<and> k < length svs \<and> mergeTarget ops svs k = Some t \<longrightarrow>
            movedIndex m k = newPos (deletedSVIndex st) t
            \<and> newPos (deletedSVIndex st) t < length svs'
            \<and> svs' ! newPos (deletedSVIndex st) t
                = (svs_of st ! t)\<lparr>candidateIndex := newPos (deletedSVIndex st) t\<rparr>)
     \<and> (\<forall>i<length svs. i \<notin> deletedSVIndex st \<longrightarrow>
            movedIndex m i = newPos (deletedSVIndex st) i
            \<and> (deletedSVIndex st \<noteq> {} \<longrightarrow>
                 svs' ! newPos (deletedSVIndex st) i
                   = (svs_of st ! i)\<lparr>candidateIndex := newPos (deletedSVIndex st) i\<rparr>))"
proof -
  let ?n = "length svs"
  from consolidateCandidates_scan[of ops svs] obtain st m svs' where
    sb: "scanBefore ops svs ?n = Inr st"
    and r: "consolidateCandidates ops svs = Inr (m, svs')"
    and c: "compaction (deletedSVIndex st) ?n m"
    and l: "length svs' = ?n - card (deletedSVIndex st)"
    and content: "deletedSVIndex st \<noteq> {} \<longrightarrow> (\<forall>i<?n. i \<notin> deletedSVIndex st \<longrightarrow>
            svs' ! newPos (deletedSVIndex st) i
              = (svs_of st ! i)\<lparr>candidateIndex := newPos (deletedSVIndex st) i\<rparr>)"
    and same: "\<forall>x \<in> deletedSVIndex st. Mapping.lookup m x = Mapping.lookup (moveSVIndex st) x"
    by blast
  let ?D = "deletedSVIndex st"
  have m1: "(1::nat) \<le> max 1 ?n" by simp
  from scan_targets[OF m1, of ops svs] obtain st2 where
    s2: "scanBefore ops svs (max 1 ?n) = Inr st2"
    and tg2: "\<forall>j. 1 \<le> j \<and> j < max 1 ?n \<longrightarrow> movedToTarget ops svs (deletedSVIndex st2) (moveSVIndex st2) j"
    by blast
  from s2 sb have "st2 = st" by (simp only: scanBefore_max sum.inject)
  with tg2 have
    tg: "\<forall>j. 1 \<le> j \<and> j < max 1 ?n \<longrightarrow> movedToTarget ops svs ?D (moveSVIndex st) j"
    by simp
  have t1: "movedToTarget ops svs ?D m k" if k: "1 \<le> k \<and> k < ?n" for k
  proof -
    from tg k have a: "movedToTarget ops svs ?D (moveSVIndex st) k" by simp
    show ?thesis
    proof (cases "mergeTarget ops svs k")
      case None
      with a show ?thesis by (simp add: movedToTarget_def)
    next
      case (Some t)
      with a have "k \<in> ?D" by (simp add: movedToTarget_def)
      with same have "Mapping.lookup m k = Mapping.lookup (moveSVIndex st) k" by simp
      with a Some show ?thesis by (simp add: movedToTarget_def)
    qed
  qed
  from c have fin: "finite ?D" and Dn: "?D \<subseteq> {1..<?n}"
    and keep: "\<forall>i<?n. i \<notin> ?D \<longrightarrow>
            (Mapping.lookup m i = None \<and> newPos ?D i = i) \<or> Mapping.lookup m i = Some (newPos ?D i)"
    by (auto simp: compaction_def)
  have subn: "?D \<subseteq> {..<?n}" using Dn by auto
  have tot: "newPos ?D ?n = ?n - card ?D" by (rule newPos_total[OF fin subn])
  have t2: "movedIndex m k = newPos ?D t \<and> newPos ?D t < length svs'
            \<and> svs' ! newPos ?D t = (svs_of st ! t)\<lparr>candidateIndex := newPos ?D t\<rparr>"
    if k: "1 \<le> k \<and> k < ?n \<and> mergeTarget ops svs k = Some t" for k t
  proof -
    from t1[of k] k have a: "k \<in> ?D" "t < k" "t \<notin> ?D" "Mapping.lookup m k = Some (newPos ?D t)"
      by (simp_all add: movedToTarget_def)
    have tn: "t < ?n" using a(2) k by simp
    have ne: "?D \<noteq> {}" using a(1) by auto
    have "newPos ?D t < newPos ?D ?n" by (rule newPos_strict[OF a(3) tn])
    with tot l have "newPos ?D t < length svs'" by simp
    moreover have "movedIndex m k = newPos ?D t" using a(4) by (simp add: movedIndex_def)
    moreover have "svs' ! newPos ?D t = (svs_of st ! t)\<lparr>candidateIndex := newPos ?D t\<rparr>"
      using content ne tn a(3) by blast
    ultimately show ?thesis by blast
  qed
  have t3: "movedIndex m i = newPos ?D i
            \<and> (?D \<noteq> {} \<longrightarrow> svs' ! newPos ?D i = (svs_of st ! i)\<lparr>candidateIndex := newPos ?D i\<rparr>)"
    if i: "i < ?n" "i \<notin> ?D" for i
  proof -
    from keep[rule_format, OF i] have "movedIndex m i = newPos ?D i"
      by (auto simp: movedIndex_def)
    with content i show ?thesis by blast
  qed
  have "scanBefore ops svs ?n = Inr st
     \<and> consolidateCandidates ops svs = Inr (m, svs')
     \<and> compaction ?D ?n m
     \<and> length svs' = ?n - card ?D
     \<and> (\<forall>k. 1 \<le> k \<and> k < ?n \<longrightarrow> movedToTarget ops svs ?D m k)
     \<and> (\<forall>k t. 1 \<le> k \<and> k < ?n \<and> mergeTarget ops svs k = Some t \<longrightarrow>
            movedIndex m k = newPos ?D t \<and> newPos ?D t < length svs'
            \<and> svs' ! newPos ?D t = (svs_of st ! t)\<lparr>candidateIndex := newPos ?D t\<rparr>)
     \<and> (\<forall>i<?n. i \<notin> ?D \<longrightarrow>
            movedIndex m i = newPos ?D i
            \<and> (?D \<noteq> {} \<longrightarrow> svs' ! newPos ?D i = (svs_of st ! i)\<lparr>candidateIndex := newPos ?D i\<rparr>))"
    using sb r c l t1 t2 t3 by (intro conjI allI impI) blast+
  then show ?thesis by (intro exI)
qed

lemma consolidateCandidates_exampleB:
  "consolidateCandidates intervalOps candidatesB
   = Inr (Mapping.update 2 1 Mapping.empty, [candidate0 100 150 0, candidate0 500 700 1])"
  by (simp add: consolidateCandidates_def candidatesB_def Let_def upt_conv_Cons
      candidate0_intersect candidate0_merge candidate0_index deleteIndex_def numeral_2_eq_2
      numeral_3_eq_3)

lemma mergeTarget_exampleB: "mergeTarget intervalOps candidatesB 2 = Some 1"
  by (simp add: mergeTarget_def scanBefore_def candidatesB_def Let_def upt_conv_Cons
      candidate0_intersect candidate0_merge numeral_2_eq_2)

section \<open>The validity of the links after the consolidation\<close>

text \<open>
  Claim C2. \<^verbatim>\<open>consolidateOverlap\<close> returns, and its move map is the map of a
  compaction: every link of every read pair of the groups of the samples is rewritten
  by the move map (to the mapped index when its index is in the map, as it is
  otherwise), and the index it has afterwards is below the length of the compacted
  list whenever it was below the length of the list before. The removed candidates
  are those with a merge target: the move map sends such a candidate to the position
  that its merge target has in the compacted list, where the list holds the merge
  target as the scan has left it, and it sends a kept candidate to its own new
  position. The merge target of a candidate is the first earlier candidate, not
  removed, that intersects it when the outer loop reaches it, and the step of the
  scan merges the candidate into it and removes the candidate. The links that
  \<^verbatim>\<open>getCandidatesFromData\<close> and \<^verbatim>\<open>findCandidateSV\<close> leave on the read pairs are all below
  the length of the candidate list they return.
\<close>

theorem consolidateOverlap_links_valid:
  "(\<exists>moveSVIndex' svs' svData' D.
      consolidateCandidates ops svs = Inr (moveSVIndex', svs')
    \<and> consolidateOverlap ops bamCount svData svs = Inr (svData', svs')
    \<and> compaction D (length svs) moveSVIndex'
    \<and> length svs' = length svs - card D
    \<and> (\<forall>bamIndex<bamCount. pairs (getDataGroup svData' bamIndex)
          = map (movePair moveSVIndex') (pairs (getDataGroup svData bamIndex)))
    \<and> (\<forall>i<length svs. movedIndex moveSVIndex' i < length svs')
    \<and> (\<forall>bamIndex<bamCount.
          (\<forall>pair \<in> set (pairs (getDataGroup svData bamIndex)). linksValid (length svs) pair)
          \<longrightarrow> (\<forall>pair \<in> set (pairs (getDataGroup svData' bamIndex)). linksValid (length svs') pair))
    \<and> (\<forall>k. 1 \<le> k \<and> k < length svs \<longrightarrow> movedToTarget ops svs D moveSVIndex' k)
    \<and> (\<exists>st. scanBefore ops svs (length svs) = Inr st \<and> D = deletedSVIndex st
         \<and> (\<forall>k t. 1 \<le> k \<and> k < length svs \<and> mergeTarget ops svs k = Some t \<longrightarrow>
               movedIndex moveSVIndex' k = newPos D t
               \<and> newPos D t < length svs'
               \<and> svs' ! newPos D t = (svs_of st ! t)\<lparr>candidateIndex := newPos D t\<rparr>)
         \<and> (\<forall>i<length svs. i \<notin> D \<longrightarrow>
               movedIndex moveSVIndex' i = newPos D i
               \<and> (D \<noteq> {} \<longrightarrow>
                    svs' ! newPos D i = (svs_of st ! i)\<lparr>candidateIndex := newPos D i\<rparr>))))
   \<and> (\<forall>k t. 1 \<le> k \<and> mergeTarget ops svs k = Some t \<longrightarrow>
         (\<exists>stk stk'. scanBefore ops svs k = Inr stk \<and> scanBefore ops svs (Suc k) = Inr stk'
            \<and> t < k \<and> t \<notin> deletedSVIndex stk
            \<and> isIntersect ops (svs_of stk ! t) (svs_of stk ! k)
            \<and> (\<forall>i<t. i \<in> deletedSVIndex stk \<or> \<not> isIntersect ops (svs_of stk ! i) (svs_of stk ! k))
            \<and> svs_of stk' = (svs_of stk)[t := merge ops (svs_of stk ! t) (svs_of stk ! k)]
            \<and> deletedSVIndex stk' = insert k (deletedSVIndex stk)))
   \<and> (\<forall>sva m. index (moveLink m sva) = movedIndex m (index sva)
              \<and> evtype (moveLink m sva) = evtype sva)
   \<and> (\<forall>svData2 svs2. getCandidatesFromData ops scanner bamCount chromToIndex svData svs
                        = Inr (svData2, svs2)
        \<longrightarrow> (\<forall>bamIndex<bamCount. \<forall>pair \<in> set (pairs (getDataGroup svData2 bamIndex)).
               linksValid (length svs2) pair))
   \<and> (\<forall>finder' svData3 svs3. findCandidateSV ops finder chromToIndex edge svData svs
                        = Inr (finder', svData3, svs3)
        \<longrightarrow> (\<forall>bamIndex. \<forall>pair \<in> set (pairs (getDataGroup svData3 bamIndex)).
               linksValid (length svs3) pair))"
proof -
  from consolidateCandidates_targets[of ops svs] obtain st m svs' where
    sb: "scanBefore ops svs (length svs) = Inr st"
    and r: "consolidateCandidates ops svs = Inr (m, svs')"
    and c: "compaction (deletedSVIndex st) (length svs) m"
    and l: "length svs' = length svs - card (deletedSVIndex st)"
    and t1: "\<forall>k. 1 \<le> k \<and> k < length svs \<longrightarrow> movedToTarget ops svs (deletedSVIndex st) m k"
    and t2: "\<forall>k t. 1 \<le> k \<and> k < length svs \<and> mergeTarget ops svs k = Some t \<longrightarrow>
            movedIndex m k = newPos (deletedSVIndex st) t
            \<and> newPos (deletedSVIndex st) t < length svs'
            \<and> svs' ! newPos (deletedSVIndex st) t
                = (svs_of st ! t)\<lparr>candidateIndex := newPos (deletedSVIndex st) t\<rparr>"
    and t3: "\<forall>i<length svs. i \<notin> deletedSVIndex st \<longrightarrow>
            movedIndex m i = newPos (deletedSVIndex st) i
            \<and> (deletedSVIndex st \<noteq> {} \<longrightarrow>
                 svs' ! newPos (deletedSVIndex st) i
                   = (svs_of st ! i)\<lparr>candidateIndex := newPos (deletedSVIndex st) i\<rparr>)"
    by (elim exE conjE) (rule that; assumption)
  from consolidateOverlap_pairs[OF r, of bamCount svData] obtain svData' where
    o: "consolidateOverlap ops bamCount svData svs = Inr (svData', svs')"
    and p: "\<forall>bamIndex<bamCount. pairs (getDataGroup svData' bamIndex)
           = map (movePair m) (pairs (getDataGroup svData bamIndex))"
    by blast
  have mi: "\<forall>i<length svs. movedIndex m i < length svs'"
    using compaction_movedIndex[OF c] l by simp
  have v: "\<forall>bamIndex<bamCount.
          (\<forall>pair \<in> set (pairs (getDataGroup svData bamIndex)). linksValid (length svs) pair)
          \<longrightarrow> (\<forall>pair \<in> set (pairs (getDataGroup svData' bamIndex)). linksValid (length svs') pair)"
  proof (intro allI impI ballI)
    fix bamIndex pair
    assume bi: "bamIndex < bamCount"
      and h: "\<forall>pair \<in> set (pairs (getDataGroup svData bamIndex)). linksValid (length svs) pair"
      and "pair \<in> set (pairs (getDataGroup svData' bamIndex))"
    with p obtain pair0 where p0: "pair0 \<in> set (pairs (getDataGroup svData bamIndex))"
      and pe: "pair = movePair m pair0" by auto
    from movePair_valid[OF c h[rule_format, OF p0]] pe l
    show "linksValid (length svs') pair" by simp
  qed
  have tg: "\<exists>st'. scanBefore ops svs (length svs) = Inr st' \<and> deletedSVIndex st = deletedSVIndex st'
         \<and> (\<forall>k t. 1 \<le> k \<and> k < length svs \<and> mergeTarget ops svs k = Some t \<longrightarrow>
               movedIndex m k = newPos (deletedSVIndex st) t
               \<and> newPos (deletedSVIndex st) t < length svs'
               \<and> svs' ! newPos (deletedSVIndex st) t
                   = (svs_of st' ! t)\<lparr>candidateIndex := newPos (deletedSVIndex st) t\<rparr>)
         \<and> (\<forall>i<length svs. i \<notin> deletedSVIndex st \<longrightarrow>
               movedIndex m i = newPos (deletedSVIndex st) i
               \<and> (deletedSVIndex st \<noteq> {} \<longrightarrow>
                    svs' ! newPos (deletedSVIndex st) i
                      = (svs_of st' ! i)\<lparr>candidateIndex := newPos (deletedSVIndex st) i\<rparr>))"
    using sb t2 t3 by (intro exI[of _ st] conjI) simp_all
  have first: "\<exists>moveSVIndex' svs' svData' D.
      consolidateCandidates ops svs = Inr (moveSVIndex', svs')
    \<and> consolidateOverlap ops bamCount svData svs = Inr (svData', svs')
    \<and> compaction D (length svs) moveSVIndex'
    \<and> length svs' = length svs - card D
    \<and> (\<forall>bamIndex<bamCount. pairs (getDataGroup svData' bamIndex)
          = map (movePair moveSVIndex') (pairs (getDataGroup svData bamIndex)))
    \<and> (\<forall>i<length svs. movedIndex moveSVIndex' i < length svs')
    \<and> (\<forall>bamIndex<bamCount.
          (\<forall>pair \<in> set (pairs (getDataGroup svData bamIndex)). linksValid (length svs) pair)
          \<longrightarrow> (\<forall>pair \<in> set (pairs (getDataGroup svData' bamIndex)). linksValid (length svs') pair))
    \<and> (\<forall>k. 1 \<le> k \<and> k < length svs \<longrightarrow> movedToTarget ops svs D moveSVIndex' k)
    \<and> (\<exists>st. scanBefore ops svs (length svs) = Inr st \<and> D = deletedSVIndex st
         \<and> (\<forall>k t. 1 \<le> k \<and> k < length svs \<and> mergeTarget ops svs k = Some t \<longrightarrow>
               movedIndex moveSVIndex' k = newPos D t
               \<and> newPos D t < length svs'
               \<and> svs' ! newPos D t = (svs_of st ! t)\<lparr>candidateIndex := newPos D t\<rparr>)
         \<and> (\<forall>i<length svs. i \<notin> D \<longrightarrow>
               movedIndex moveSVIndex' i = newPos D i
               \<and> (D \<noteq> {} \<longrightarrow>
                    svs' ! newPos D i = (svs_of st ! i)\<lparr>candidateIndex := newPos D i\<rparr>)))"
    apply (rule exI[of _ m])
    apply (rule exI[of _ svs'])
    apply (rule exI[of _ svData'])
    apply (rule exI[of _ "deletedSVIndex st"])
    apply (intro conjI)
            apply (rule r)
           apply (rule o)
          apply (rule c)
         apply (rule l)
        apply (rule p)
       apply (rule mi)
      apply (rule v)
     apply (rule t1)
    apply (rule tg)
    done
  have step: "\<forall>k t. 1 \<le> k \<and> mergeTarget ops svs k = Some t \<longrightarrow>
         (\<exists>stk stk'. scanBefore ops svs k = Inr stk \<and> scanBefore ops svs (Suc k) = Inr stk'
            \<and> t < k \<and> t \<notin> deletedSVIndex stk
            \<and> isIntersect ops (svs_of stk ! t) (svs_of stk ! k)
            \<and> (\<forall>i<t. i \<in> deletedSVIndex stk \<or> \<not> isIntersect ops (svs_of stk ! i) (svs_of stk ! k))
            \<and> svs_of stk' = (svs_of stk)[t := merge ops (svs_of stk ! t) (svs_of stk ! k)]
            \<and> deletedSVIndex stk' = insert k (deletedSVIndex stk))"
  proof (intro allI impI)
    fix k t
    assume a: "1 \<le> k \<and> mergeTarget ops svs k = Some t"
    then have k1: "1 \<le> k" and mt: "mergeTarget ops svs k = Some t" by simp_all
    show "\<exists>stk stk'. scanBefore ops svs k = Inr stk \<and> scanBefore ops svs (Suc k) = Inr stk'
            \<and> t < k \<and> t \<notin> deletedSVIndex stk
            \<and> isIntersect ops (svs_of stk ! t) (svs_of stk ! k)
            \<and> (\<forall>i<t. i \<in> deletedSVIndex stk \<or> \<not> isIntersect ops (svs_of stk ! i) (svs_of stk ! k))
            \<and> svs_of stk' = (svs_of stk)[t := merge ops (svs_of stk ! t) (svs_of stk ! k)]
            \<and> deletedSVIndex stk' = insert k (deletedSVIndex stk)"
      by (rule scan_step_merge[OF k1 mt])
  qed
  have second: "\<forall>sva m. index (moveLink m sva) = movedIndex m (index sva)
              \<and> evtype (moveLink m sva) = evtype sva"
    by (simp add: moveLink_def movedIndex_def split: option.splits)
  have third: "\<forall>svData2 svs2. getCandidatesFromData ops scanner bamCount chromToIndex svData svs
                        = Inr (svData2, svs2)
        \<longrightarrow> (\<forall>bamIndex<bamCount. \<forall>pair \<in> set (pairs (getDataGroup svData2 bamIndex)).
               linksValid (length svs2) pair)"
    using getCandidatesFromData_inv by blast
  have fourth: "\<forall>finder' svData3 svs3. findCandidateSV ops finder chromToIndex edge svData svs
                        = Inr (finder', svData3, svs3)
        \<longrightarrow> (\<forall>bamIndex. \<forall>pair \<in> set (pairs (getDataGroup svData3 bamIndex)).
               linksValid (length svs3) pair)"
    using findCandidateSV_inv by blast
  show ?thesis
    apply (intro conjI)
        apply (rule first)
       apply (rule step)
      apply (rule second)
     apply (rule third)
    apply (rule fourth)
    done
qed

theorem consolidateOverlap_links_valid_witness:
  "linksValid 3 pairLinked
   \<and> mergeTarget intervalOps candidatesB 1 = None
   \<and> mergeTarget intervalOps candidatesB 2 = Some 1
   \<and> (\<exists>moveSVIndex' svData'.
         consolidateCandidates intervalOps candidatesB
           = Inr (moveSVIndex', [candidate0 100 150 0, candidate0 500 700 1])
       \<and> consolidateOverlap intervalOps 1 svDataLinked candidatesB
           = Inr (svData', [candidate0 100 150 0, candidate0 500 700 1])
       \<and> Mapping.lookup moveSVIndex' 2 = Some 1
       \<and> pairs (getDataGroup svData' 0)
           = [pairLinked\<lparr>svLink := [\<lparr>index = 1, evtype = 0\<rparr>, \<lparr>index = 1, evtype = 0\<rparr>,
                                \<lparr>index = 0, evtype = 1\<rparr>]\<rparr>]
       \<and> (\<forall>pair \<in> set (pairs (getDataGroup svData' 0)). linksValid 2 pair))"
proof -
  have lv: "linksValid 3 pairLinked" by (simp add: linksValid_def pairLinked_def)
  have l3: "length candidatesB = 3" by (simp add: candidatesB_def)
  have m1: "mergeTarget intervalOps candidatesB 1 = None"
    by (simp add: mergeTarget_def scanBefore_def candidatesB_def candidate0_intersect)
  note m2 = mergeTarget_exampleB
  from consolidateOverlap_links_valid[where ops = intervalOps and svs = candidatesB and bamCount = 1
      and svData = svDataLinked
      and scanner = scanner0 and chromToIndex = "\<lambda>n. None" and finder = "finder0 3"
      and edge = selfEdge0, THEN conjunct1]
  obtain m svs' svData' D where
    r: "consolidateCandidates intervalOps candidatesB = Inr (m, svs')"
    and o: "consolidateOverlap intervalOps 1 svDataLinked candidatesB = Inr (svData', svs')"
    and p: "\<forall>bamIndex<1. pairs (getDataGroup svData' bamIndex)
          = map (movePair m) (pairs (getDataGroup svDataLinked bamIndex))"
    and v: "\<forall>bamIndex<1.
          (\<forall>pair \<in> set (pairs (getDataGroup svDataLinked bamIndex)). linksValid (length candidatesB) pair)
          \<longrightarrow> (\<forall>pair \<in> set (pairs (getDataGroup svData' bamIndex)). linksValid (length svs') pair)"
    and t: "\<forall>k. 1 \<le> k \<and> k < length candidatesB \<longrightarrow> movedToTarget intervalOps candidatesB D m k"
    by (elim exE conjE) (rule that; assumption)
  from consolidateCandidates_exampleB r
  have s: "svs' = [candidate0 100 150 0, candidate0 500 700 1]"
    and m: "m = Mapping.update 2 1 Mapping.empty" by simp_all
  from t[rule_format, of 2] m2 l3 have d2: "2 \<in> D \<and> 1 \<notin> D \<and> Mapping.lookup m 2 = Some (newPos D 1)"
    by (simp add: movedToTarget_def)
  have k: "Mapping.lookup m 2 = Some 1" by (simp add: m Mapping.lookup_update)
  have "\<forall>pair \<in> set (pairs (getDataGroup svDataLinked 0)). linksValid (length candidatesB) pair"
    using lv l3 by (simp add: svDataLinked_group)
  with v have "\<forall>pair \<in> set (pairs (getDataGroup svData' 0)). linksValid (length svs') pair"
    by simp
  then have w: "\<forall>pair \<in> set (pairs (getDataGroup svData' 0)). linksValid 2 pair"
    unfolding s by (simp add: numeral_2_eq_2)
  from p have "pairs (getDataGroup svData' 0) = map (movePair m) [pairLinked]"
    by (simp add: svDataLinked_group)
  then have q: "pairs (getDataGroup svData' 0)
           = [pairLinked\<lparr>svLink := [\<lparr>index = 1, evtype = 0\<rparr>, \<lparr>index = 1, evtype = 0\<rparr>,
                                \<lparr>index = 0, evtype = 1\<rparr>]\<rparr>]"
    by (simp add: m movePair_def moveLink_def pairLinked_def Mapping.lookup_update'
        Mapping.lookup_empty)
  have "consolidateCandidates intervalOps candidatesB
           = Inr (m, [candidate0 100 150 0, candidate0 500 700 1])
       \<and> consolidateOverlap intervalOps 1 svDataLinked candidatesB
           = Inr (svData', [candidate0 100 150 0, candidate0 500 700 1])
       \<and> Mapping.lookup m 2 = Some 1
       \<and> pairs (getDataGroup svData' 0)
           = [pairLinked\<lparr>svLink := [\<lparr>index = 1, evtype = 0\<rparr>, \<lparr>index = 1, evtype = 0\<rparr>,
                                \<lparr>index = 0, evtype = 1\<rparr>]\<rparr>]
       \<and> (\<forall>pair \<in> set (pairs (getDataGroup svData' 0)). linksValid 2 pair)"
    using r o k q w unfolding s by (intro conjI)
  then have e: "\<exists>moveSVIndex' svData'.
         consolidateCandidates intervalOps candidatesB
           = Inr (moveSVIndex', [candidate0 100 150 0, candidate0 500 700 1])
       \<and> consolidateOverlap intervalOps 1 svDataLinked candidatesB
           = Inr (svData', [candidate0 100 150 0, candidate0 500 700 1])
       \<and> Mapping.lookup moveSVIndex' 2 = Some 1
       \<and> pairs (getDataGroup svData' 0)
           = [pairLinked\<lparr>svLink := [\<lparr>index = 1, evtype = 0\<rparr>, \<lparr>index = 1, evtype = 0\<rparr>,
                                \<lparr>index = 0, evtype = 1\<rparr>]\<rparr>]
       \<and> (\<forall>pair \<in> set (pairs (getDataGroup svData' 0)). linksValid 2 pair)"
    by (intro exI)
  from lv m1 m2 e show ?thesis by (intro conjI)
qed

section \<open>The stability of the candidate indices\<close>

text \<open>
  Claim C1. \<^verbatim>\<open>consolidateOverlap\<close> returns an index-stable list for every index-stable
  list, the kind of list the assignment builds. Where the merge of candidates keeps the
  stored index, the list \<^verbatim>\<open>getCandidatesFromData\<close> returns for an index-stable list is
  index-stable, and so is every list \<^verbatim>\<open>findCandidateSV\<close> returns.
\<close>

theorem consolidateOverlap_index_stable:
  "(indexStable svs \<longrightarrow>
      (\<exists>svData' svs'. consolidateOverlap ops bamCount svData svs = Inr (svData', svs')
         \<and> indexStable svs'))
   \<and> (\<forall>svData2 svs2. mergeKeepsIndex ops \<and> indexStable svs
          \<and> getCandidatesFromData ops scanner bamCount chromToIndex svData svs = Inr (svData2, svs2)
        \<longrightarrow> indexStable svs2)
   \<and> (\<forall>finder' svData3 svs3. mergeKeepsIndex ops
          \<and> findCandidateSV ops finder chromToIndex edge svData svs = Inr (finder', svData3, svs3)
        \<longrightarrow> indexStable svs3)"
proof -
  have a: "indexStable svs \<longrightarrow>
      (\<exists>svData' svs'. consolidateOverlap ops bamCount svData svs = Inr (svData', svs')
         \<and> indexStable svs')"
    using consolidateOverlap_result[of ops svs bamCount svData] by blast
  have b: "\<forall>svData2 svs2. mergeKeepsIndex ops \<and> indexStable svs
          \<and> getCandidatesFromData ops scanner bamCount chromToIndex svData svs = Inr (svData2, svs2)
        \<longrightarrow> indexStable svs2"
    using getCandidatesFromData_inv by blast
  have c: "\<forall>finder' svData3 svs3. mergeKeepsIndex ops
          \<and> findCandidateSV ops finder chromToIndex edge svData svs = Inr (finder', svData3, svs3)
        \<longrightarrow> indexStable svs3"
    using findCandidateSV_inv by blast
  from a b c show ?thesis by blast
qed

theorem consolidateOverlap_index_stable_witness:
  "mergeKeepsIndex intervalOps \<and> indexStable candidates3
   \<and> (\<exists>svData'. consolidateOverlap intervalOps 1 svDataLinked candidates3
         = Inr (svData', [candidate0 100 200 0, candidate0 500 600 1]))
   \<and> indexStable [candidate0 100 200 0, candidate0 500 600 1]"
proof -
  have m: "mergeKeepsIndex intervalOps"
    by (simp add: mergeKeepsIndex_def intervalOps_def merge_sv_def)
  have i: "indexStable candidates3"
    by (simp add: indexStable_def candidates3_def candidate0_def less_Suc_eq numeral_3_eq_3)
  from consolidateOverlap_index_stable[where ops = intervalOps and svs = candidates3 and bamCount = 1 and svData = svDataLinked
      and scanner = scanner0 and chromToIndex = "\<lambda>n. None" and finder = "finder0 3"
      and edge = selfEdge0, THEN conjunct1] i
  obtain svData' svs' where
    o: "consolidateOverlap intervalOps 1 svDataLinked candidates3 = Inr (svData', svs')"
    and s: "indexStable svs'"
    by blast
  from consolidateOverlap_example[of 1 svDataLinked] o
  have e: "svs' = [candidate0 100 200 0, candidate0 500 600 1]" by auto
  from m i o s e show ?thesis by auto
qed

end
